theory Spec2Isabelle
  imports Main
begin

section \<open>Code flows of a SARIF result: a model of \<open>src/CodeFlows.ts\<close>\<close>

text \<open>
  The class \<open>CodeFlows\<close> converts the raw code flows of a SARIF result into the tree
  the explorer displays (\<open>create\<close>), and later retries the resolution of the
  locations that could not be mapped (\<open>tryRemapCodeFlows\<close>).

  A rejected promise or a thrown exception is a value \<open>Inl err\<close>. An optional
  property that is \<open>undefined\<close> is \<open>None\<close>, and so is the \<open>null\<close> that the location
  of a step may be. Every \<open>await\<close> of the source sits in a sequential loop, so
  the asynchronous functions are modelled by the order of their effects.
\<close>

subsection \<open>The raw SARIF objects (package \<open>sarif\<close>)\<close>

text \<open>
  Modelled from the spec: the typings of the package \<open>sarif\<close> are not part of the
  repository; the shapes are those of the specification's external interfaces.
  Only the properties that \<open>CodeFlows.ts\<close> reads are kept. The physical location
  descriptor \<open>'pl\<close> and the message object \<open>'msg\<close> are opaque: the code hands them to
  \<open>Location.create\<close> and \<open>Utilities.parseSarifMessage\<close> and never looks inside.
  A nesting level and a step ordinal are numbers with an integer value.
\<close>

datatype importance = important | essential | unimportant

type_synonym state_snapshot = "(string \<times> string) list"

record ('pl, 'msg) sarif_Location =
  physicalLocation :: 'pl
  loc_message :: "'msg option"

record ('pl, 'msg) sarif_CodeFlowLocation =
  cfl_location :: "('pl, 'msg) sarif_Location"
  nestingLevel :: "int option"
  cfl_importance :: "importance option"
  cfl_step :: "int option"
  cfl_state :: "state_snapshot option"

record ('pl, 'msg) sarif_ThreadFlow =
  stf_id :: "string option"
  stf_message :: "'msg option"
  locations :: "('pl, 'msg) sarif_CodeFlowLocation list"

record ('pl, 'msg) sarif_CodeFlow =
  scf_message :: "'msg option"
  threadFlows :: "('pl, 'msg) sarif_ThreadFlow list"

subsection \<open>The converted objects (\<open>./Interfaces\<close>, \<open>./Location\<close>, \<open>vscode\<close>)\<close>

text \<open>
  Modelled from the spec: the declarations of \<open>./Interfaces\<close> and \<open>./Location\<close> are
  not among the sources. The fields of a step, a thread and a flow are those of the
  object literals of \<open>CodeFlows.ts\<close>.
  \<open>Message\<close> is what \<open>Utilities.parseSarifMessage\<close> returns; the code reads its
  \<open>text\<close> only. Of a \<open>Location\<close> the code reads the flag \<open>mapped\<close> (compared with
  \<open>true\<close>); everything else it carries is \<open>details\<close>.
\<close>

record Message =
  msg_text :: string

record 'l Location =
  mapped :: bool
  details :: 'l

record request_argument =
  request :: string
  treeid_step :: string

record Command =
  arguments :: "request_argument list"
  command :: string
  title :: string

record 'l CodeFlowStep =
  codeLensCommand :: Command
  importance :: importance
  isLastChild :: bool
  isParent :: bool
  location :: "'l Location option"
  message :: string
  messageWithStep :: string
  state :: "state_snapshot option"
  stepId :: "int option"
  traversalId :: string

record 'l ThreadFlow =
  tf_id :: "string option"
  tf_message :: "string option"
  steps :: "'l CodeFlowStep list"

record 'l CodeFlow =
  cf_message :: "string option"
  threads :: "'l ThreadFlow list"

subsection \<open>Failures and the external collaborators\<close>

text \<open>
  \<open>TypeError\<close> is what JavaScript throws when a property of \<open>undefined\<close> is read;
  \<open>Rejected\<close> is a rejection of the promise of \<open>Location.create\<close>.

  \<open>Location.create\<close>, \<open>Utilities.parseSarifMessage\<close> and the constant
  \<open>ExplorerContentProvider.ExplorerCallbackCommand\<close> live in other files of the
  extension; they are parameters of the model.

  So is \<open>toString_unsafe\<close>, which belongs to the language: what a template literal
  prints for a number that is not a safe integer (rounded digits, or exponent notation
  from \<open>1e21\<close> on), of which the model says nothing.
\<close>

datatype error = TypeError | Rejected string

record ('pl, 'msg, 'l) externals =
  Location_create :: "'pl \<Rightarrow> error + 'l Location option"
  parseSarifMessage :: "'msg option \<Rightarrow> Message option"
  ExplorerCallbackCommand :: string
  toString_unsafe :: "int \<Rightarrow> string"

subsection \<open>JavaScript primitives\<close>

text \<open>Reading an array beyond its end gives \<open>undefined\<close>.\<close>

definition js_nth :: "'a list \<Rightarrow> nat \<Rightarrow> 'a option" where
  "js_nth xs i = (if i < length xs then Some (xs ! i) else None)"

text \<open>\<open><\<close> and \<open>>\<close> on numbers that may be \<open>undefined\<close>: \<open>undefined\<close> becomes
  \<open>NaN\<close>, and every comparison with \<open>NaN\<close> is false.\<close>

definition js_lt :: "int option \<Rightarrow> int option \<Rightarrow> bool" where
  "js_lt a b = (case a of None \<Rightarrow> False | Some x \<Rightarrow> (case b of None \<Rightarrow> False | Some y \<Rightarrow> x < y))"

definition js_gt :: "int option \<Rightarrow> int option \<Rightarrow> bool" where
  "js_gt a b = (case a of None \<Rightarrow> False | Some x \<Rightarrow> (case b of None \<Rightarrow> False | Some y \<Rightarrow> x > y))"

text \<open>
  A template literal prints an array index in decimal. It prints a number with an
  integer value in decimal, digit for digit, when the number is a safe integer (at most
  \<open>2 ^ 53 - 1 = 9007199254740991\<close> in absolute value); what it prints for any other
  number is left to the parameter \<open>unsafe\<close>.
\<close>

definition digit_char :: "nat \<Rightarrow> char" where
  "digit_char d = ''0123456789'' ! d"

function js_nat_to_string :: "nat \<Rightarrow> string" where
  "js_nat_to_string n =
     (if n < 10 then [digit_char n]
      else js_nat_to_string (n div 10) @ [digit_char (n mod 10)])"
  by pat_completeness auto
termination
  by (relation "measure (\<lambda>n. n)") auto

declare js_nat_to_string.simps [simp del]

definition js_int_to_string :: "(int \<Rightarrow> string) \<Rightarrow> int \<Rightarrow> string" where
  "js_int_to_string unsafe i =
     (if - 9007199254740991 \<le> i \<and> i \<le> 9007199254740991 then
        (if i < 0 then CHR ''-'' # js_nat_to_string (nat (- i)) else js_nat_to_string (nat i))
      else unsafe i)"

subsection \<open>\<open>createCodeFlowStep\<close>\<close>

definition createCodeFlowStep ::
  "('pl, 'msg, 'l) externals \<Rightarrow> ('pl, 'msg) sarif_CodeFlowLocation \<Rightarrow>
   ('pl, 'msg) sarif_CodeFlowLocation option \<Rightarrow> string \<Rightarrow> error + 'l CodeFlowStep" where
  "createCodeFlowStep ext cFLoc nextCFLoc traversalPathId =
     (case Location_create ext (physicalLocation (cfl_location cFLoc)) of
        Inl err \<Rightarrow> Inl err
      | Inr loc \<Rightarrow>
          (let (isParentFlag, isLastChildFlag) =
                 (case nextCFLoc of
                    None \<Rightarrow> (False, False)
                  | Some nxt \<Rightarrow>
                      if js_lt (nestingLevel cFLoc) (nestingLevel nxt) \<or>
                         (nestingLevel cFLoc = None \<and> nestingLevel nxt \<noteq> None)
                      then (True, False)
                      else if js_gt (nestingLevel cFLoc) (nestingLevel nxt) \<or>
                         (nestingLevel cFLoc \<noteq> None \<and> nestingLevel nxt = None)
                      then (False, True)
                      else (False, False));
               parsed = parseSarifMessage ext (loc_message (cfl_location cFLoc));
               messageText0 = (case parsed of None \<Rightarrow> [] | Some m \<Rightarrow> msg_text m);
               messageText =
                 (if messageText0 = []
                  then (if isLastChildFlag then ''[return call]'' else ''[no description]'')
                  else messageText0);
               messageWithStepText =
                 (case cfl_step cFLoc of
                    None \<Rightarrow> messageText
                  | Some n \<Rightarrow> ''Step '' @ js_int_to_string (toString_unsafe ext) n @ '': '' @ messageText);
               cmd = \<lparr> arguments = [\<lparr> request = ''CodeFlowTreeSelectionChange'',
                                       treeid_step = traversalPathId \<rparr>],
                       command = ExplorerCallbackCommand ext,
                       title = messageWithStepText \<rparr>
           in Inr \<lparr> codeLensCommand = cmd,
                    importance = (case cfl_importance cFLoc of None \<Rightarrow> important | Some i \<Rightarrow> i),
                    isLastChild = isLastChildFlag,
                    isParent = isParentFlag,
                    location = loc,
                    message = messageText,
                    messageWithStep = messageWithStepText,
                    state = cfl_state cFLoc,
                    stepId = cfl_step cFLoc,
                    traversalId = traversalPathId \<rparr>))"

subsection \<open>\<open>createThreadFlow\<close>\<close>

text \<open>The loop over \<open>stepIndex\<close>; \<open>acc\<close> is \<open>threadFlow.steps\<close>.\<close>

function createThreadFlow_loop ::
  "('pl, 'msg, 'l) externals \<Rightarrow> ('pl, 'msg) sarif_CodeFlowLocation list \<Rightarrow> string \<Rightarrow>
   nat \<Rightarrow> 'l CodeFlowStep list \<Rightarrow> error + 'l CodeFlowStep list" where
  "createThreadFlow_loop ext locs tid stepIndex acc =
     (if stepIndex < length locs then
        (case createCodeFlowStep ext (locs ! stepIndex) (js_nth locs (stepIndex + 1))
                (tid @ ''_'' @ js_nat_to_string stepIndex) of
           Inl err \<Rightarrow> Inl err
         | Inr step \<Rightarrow> createThreadFlow_loop ext locs tid (Suc stepIndex) (acc @ [step]))
      else Inr acc)"
  by pat_completeness auto
termination
  by (relation "measure (\<lambda>(ext, locs, tid, stepIndex, acc). length locs - stepIndex)") auto

declare createThreadFlow_loop.simps [simp del]

definition createThreadFlow ::
  "('pl, 'msg, 'l) externals \<Rightarrow> ('pl, 'msg) sarif_ThreadFlow \<Rightarrow> string \<Rightarrow>
   error + 'l ThreadFlow" where
  "createThreadFlow ext sarifTF tid =
     (case (case stf_message sarifTF of
              None \<Rightarrow> Inr None
            | Some m \<Rightarrow>
                (case parseSarifMessage ext (Some m) of
                   None \<Rightarrow> Inl TypeError
                 | Some p \<Rightarrow> Inr (Some (msg_text p)))) of
        Inl err \<Rightarrow> Inl err
      | Inr msg \<Rightarrow>
          (case createThreadFlow_loop ext (locations sarifTF) tid 0 [] of
             Inl err \<Rightarrow> Inl err
           | Inr sts \<Rightarrow> Inr \<lparr> tf_id = stf_id sarifTF, tf_message = msg, steps = sts \<rparr>))"

subsection \<open>\<open>createCodeFlow\<close>\<close>

text \<open>The loop over \<open>tFIndex\<close>; \<open>acc\<close> is \<open>codeFlow.threads\<close>.\<close>

function createCodeFlow_loop ::
  "('pl, 'msg, 'l) externals \<Rightarrow> ('pl, 'msg) sarif_ThreadFlow list \<Rightarrow> string \<Rightarrow>
   nat \<Rightarrow> 'l ThreadFlow list \<Rightarrow> error + 'l ThreadFlow list" where
  "createCodeFlow_loop ext tfs tid tFIndex acc =
     (if tFIndex < length tfs then
        (case createThreadFlow ext (tfs ! tFIndex)
                (tid @ ''_'' @ js_nat_to_string tFIndex) of
           Inl err \<Rightarrow> Inl err
         | Inr threadFlow \<Rightarrow> createCodeFlow_loop ext tfs tid (Suc tFIndex) (acc @ [threadFlow]))
      else Inr acc)"
  by pat_completeness auto
termination
  by (relation "measure (\<lambda>(ext, tfs, tid, tFIndex, acc). length tfs - tFIndex)") auto

declare createCodeFlow_loop.simps [simp del]

definition createCodeFlow ::
  "('pl, 'msg, 'l) externals \<Rightarrow> ('pl, 'msg) sarif_CodeFlow \<Rightarrow> string \<Rightarrow>
   error + 'l CodeFlow" where
  "createCodeFlow ext sarifCF tid =
     (case (case scf_message sarifCF of
              None \<Rightarrow> Inr None
            | Some m \<Rightarrow>
                (case parseSarifMessage ext (Some m) of
                   None \<Rightarrow> Inl TypeError
                 | Some p \<Rightarrow> Inr (Some (msg_text p)))) of
        Inl err \<Rightarrow> Inl err
      | Inr msg \<Rightarrow>
          (case createCodeFlow_loop ext (threadFlows sarifCF) tid 0 [] of
             Inl err \<Rightarrow> Inl err
           | Inr ths \<Rightarrow> Inr \<lparr> cf_message = msg, threads = ths \<rparr>))"

subsection \<open>\<open>create\<close>\<close>

text \<open>The loop over \<open>cFIndex\<close>; \<open>acc\<close> is \<open>codeFlows\<close>.\<close>

function create_loop ::
  "('pl, 'msg, 'l) externals \<Rightarrow> ('pl, 'msg) sarif_CodeFlow list \<Rightarrow>
   nat \<Rightarrow> 'l CodeFlow list \<Rightarrow> error + 'l CodeFlow list" where
  "create_loop ext sarifCodeFlows cFIndex acc =
     (if cFIndex < length sarifCodeFlows then
        (case createCodeFlow ext (sarifCodeFlows ! cFIndex) (js_nat_to_string cFIndex) of
           Inl err \<Rightarrow> Inl err
         | Inr codeFlow \<Rightarrow> create_loop ext sarifCodeFlows (Suc cFIndex) (acc @ [codeFlow]))
      else Inr acc)"
  by pat_completeness auto
termination
  by (relation "measure (\<lambda>(ext, sarifCodeFlows, cFIndex, acc). length sarifCodeFlows - cFIndex)") auto

declare create_loop.simps [simp del]

text \<open>The argument may be \<open>undefined\<close>, and so may the result.\<close>

definition create ::
  "('pl, 'msg, 'l) externals \<Rightarrow> ('pl, 'msg) sarif_CodeFlow list option \<Rightarrow>
   error + 'l CodeFlow list option" where
  "create ext sarifCodeFlows =
     (case sarifCodeFlows of
        None \<Rightarrow> Inr None
      | Some scfs \<Rightarrow>
          if length scfs \<noteq> 0 then
            (case create_loop ext scfs 0 [] of
               Inl err \<Rightarrow> Inl err
             | Inr codeFlows \<Rightarrow> Inr (Some codeFlows))
          else Inr None)"

subsection \<open>\<open>tryRemapCodeFlows\<close>\<close>

text \<open>
  The pass writes into the step objects of \<open>codeFlows\<close> and returns nothing. When it
  throws, the steps written so far stay written, so each loop returns the failure
  (if any) together with the array as the loop left it. The raw array is read only for
  a step that is to be remapped: \<open>sarifCodeFlows[cFKey].threadFlows[tFKey].locations[stepKey]\<close>
  throws a \<open>TypeError\<close> as soon as one of the indices is out of range.
\<close>

function tryRemapCodeFlows_steps ::
  "('pl, 'msg, 'l) externals \<Rightarrow> ('pl, 'msg) sarif_CodeFlow list \<Rightarrow> nat \<Rightarrow> nat \<Rightarrow> nat \<Rightarrow>
   'l CodeFlowStep list \<Rightarrow> error option \<times> 'l CodeFlowStep list" where
  "tryRemapCodeFlows_steps ext sarifCodeFlows cFKey tFKey stepKey sts =
     (if stepKey < length sts then
        (let step = sts ! stepKey in
         if (case location step of None \<Rightarrow> False | Some l \<Rightarrow> \<not> mapped l) then
           (case js_nth sarifCodeFlows cFKey of
              None \<Rightarrow> (Some TypeError, sts)
            | Some scf \<Rightarrow>
               (case js_nth (threadFlows scf) tFKey of
                  None \<Rightarrow> (Some TypeError, sts)
                | Some stf \<Rightarrow>
                   (case js_nth (locations stf) stepKey of
                      None \<Rightarrow> (Some TypeError, sts)
                    | Some scfl \<Rightarrow>
                       (case Location_create ext (physicalLocation (cfl_location scfl)) of
                          Inl err \<Rightarrow> (Some err, sts)
                        | Inr loc \<Rightarrow>
                            tryRemapCodeFlows_steps ext sarifCodeFlows cFKey tFKey (Suc stepKey)
                              (sts[stepKey := step\<lparr>location := loc\<rparr>])))))
         else tryRemapCodeFlows_steps ext sarifCodeFlows cFKey tFKey (Suc stepKey) sts)
      else (None, sts))"
  by pat_completeness auto
termination
  by (relation "measure (\<lambda>(ext, sarifCodeFlows, cFKey, tFKey, stepKey, sts). length sts - stepKey)")
     auto

declare tryRemapCodeFlows_steps.simps [simp del]

function tryRemapCodeFlows_threads ::
  "('pl, 'msg, 'l) externals \<Rightarrow> ('pl, 'msg) sarif_CodeFlow list \<Rightarrow> nat \<Rightarrow> nat \<Rightarrow>
   'l ThreadFlow list \<Rightarrow> error option \<times> 'l ThreadFlow list" where
  "tryRemapCodeFlows_threads ext sarifCodeFlows cFKey tFKey ths =
     (if tFKey < length ths then
        (let thread = ths ! tFKey;
             (failure, sts) = tryRemapCodeFlows_steps ext sarifCodeFlows cFKey tFKey 0 (steps thread);
             ths' = ths[tFKey := thread\<lparr>steps := sts\<rparr>]
         in case failure of
              Some err \<Rightarrow> (Some err, ths')
            | None \<Rightarrow> tryRemapCodeFlows_threads ext sarifCodeFlows cFKey (Suc tFKey) ths')
      else (None, ths))"
  by pat_completeness auto
termination
  by (relation "measure (\<lambda>(ext, sarifCodeFlows, cFKey, tFKey, ths). length ths - tFKey)") auto

declare tryRemapCodeFlows_threads.simps [simp del]

function tryRemapCodeFlows_flows ::
  "('pl, 'msg, 'l) externals \<Rightarrow> ('pl, 'msg) sarif_CodeFlow list \<Rightarrow> nat \<Rightarrow>
   'l CodeFlow list \<Rightarrow> error option \<times> 'l CodeFlow list" where
  "tryRemapCodeFlows_flows ext sarifCodeFlows cFKey codeFlows =
     (if cFKey < length codeFlows then
        (let codeFlow = codeFlows ! cFKey;
             (failure, ths) = tryRemapCodeFlows_threads ext sarifCodeFlows cFKey 0 (threads codeFlow);
             codeFlows' = codeFlows[cFKey := codeFlow\<lparr>threads := ths\<rparr>]
         in case failure of
              Some err \<Rightarrow> (Some err, codeFlows')
            | None \<Rightarrow> tryRemapCodeFlows_flows ext sarifCodeFlows (Suc cFKey) codeFlows')
      else (None, codeFlows))"
  by pat_completeness auto
termination
  by (relation "measure (\<lambda>(ext, sarifCodeFlows, cFKey, codeFlows). length codeFlows - cFKey)") auto

declare tryRemapCodeFlows_flows.simps [simp del]

definition tryRemapCodeFlows ::
  "('pl, 'msg, 'l) externals \<Rightarrow> 'l CodeFlow list \<Rightarrow> ('pl, 'msg) sarif_CodeFlow list \<Rightarrow>
   error option \<times> 'l CodeFlow list" where
  "tryRemapCodeFlows ext codeFlows sarifCodeFlows =
     tryRemapCodeFlows_flows ext sarifCodeFlows 0 codeFlows"

section \<open>A sample input\<close>

text \<open>
  A resolver, a message parser and a small raw array on which the theorems below are
  run. A physical location is a file name here: the resolver rejects the empty name,
  leaves the name \<open>?\<close> not mapped and maps every other one. A message object is its
  text, which the parser returns. No ordinal of the sample is beyond the safe integers,
  so \<open>toString_unsafe\<close> is never asked.
\<close>

definition sample_externals :: "(string, string, string) externals" where
  "sample_externals =
     \<lparr> Location_create =
         (\<lambda>pl. if pl = [] then Inl (Rejected ''no file'')
               else Inr (Some \<lparr> mapped = (pl \<noteq> ''?''), details = pl \<rparr>)),
       parseSarifMessage =
         (\<lambda>m. case m of None \<Rightarrow> None | Some t \<Rightarrow> Some \<lparr> msg_text = t \<rparr>),
       ExplorerCallbackCommand = ''ExplorerCallback'',
       toString_unsafe = (\<lambda>n. ''1e+21'') \<rparr>"

definition sample_location ::
  "string \<Rightarrow> int option \<Rightarrow> string option \<Rightarrow> int option \<Rightarrow> (string, string) sarif_CodeFlowLocation" where
  "sample_location pl lvl msg ordinal =
     \<lparr> cfl_location = \<lparr> physicalLocation = pl, loc_message = msg \<rparr>,
       nestingLevel = lvl, cfl_importance = None, cfl_step = ordinal, cfl_state = None \<rparr>"

definition sample_thread :: "(string, string) sarif_ThreadFlow" where
  "sample_thread =
     \<lparr> stf_id = Some ''main'', stf_message = None,
       locations = [sample_location ''a.c'' (Some 0) (Some ''foo'') (Some 5),
                    sample_location ''?'' (Some 1) None None,
                    sample_location ''b.c'' (Some 1) None None,
                    sample_location ''a.c'' (Some 0) None None] \<rparr>"

definition sample_flows :: "(string, string) sarif_CodeFlow list" where
  "sample_flows = [\<lparr> scf_message = Some ''trace'', threadFlows = [sample_thread] \<rparr>]"

text \<open>The same collaborators after the user has told the extension where \<open>?\<close> is:
  the resolver now maps that name too.\<close>

definition sample_externals_later :: "(string, string, string) externals" where
  "sample_externals_later =
     sample_externals\<lparr> Location_create :=
       (\<lambda>pl. if pl = [] then Inl (Rejected ''no file'')
             else Inr (Some \<lparr> mapped = True, details = pl \<rparr>)) \<rparr>"

text \<open>What \<open>create\<close> makes of \<open>sample_flows\<close>; \<open>m\<close> is the flag \<open>mapped\<close> of the
  second step, the only one whose file the first resolver does not find.\<close>

definition sample_step ::
  "string \<Rightarrow> string \<Rightarrow> bool \<Rightarrow> string \<Rightarrow> string \<Rightarrow> int option \<Rightarrow> bool \<Rightarrow> bool \<Rightarrow> string CodeFlowStep" where
  "sample_step tid pl m label full ordinal parent lastChild =
     \<lparr> codeLensCommand =
         \<lparr> arguments = [\<lparr> request = ''CodeFlowTreeSelectionChange'', treeid_step = tid \<rparr>],
           command = ''ExplorerCallback'', title = full \<rparr>,
       importance = important, isLastChild = lastChild, isParent = parent,
       location = Some \<lparr> mapped = m, details = pl \<rparr>,
       message = label, messageWithStep = full,
       state = None, stepId = ordinal, traversalId = tid \<rparr>"

definition sample_tree :: "bool \<Rightarrow> string CodeFlow list" where
  "sample_tree m =
     [\<lparr> cf_message = Some ''trace'',
        threads =
          [\<lparr> tf_id = Some ''main'', tf_message = None,
             steps =
               [sample_step ''0_0_0'' ''a.c'' True ''foo'' ''Step 5: foo'' (Some 5) True False,
                sample_step ''0_0_1'' ''?'' m ''[no description]'' ''[no description]'' None False False,
                sample_step ''0_0_2'' ''b.c'' True ''[return call]'' ''[return call]'' None False True,
                sample_step ''0_0_3'' ''a.c'' True ''[no description]'' ''[no description]'' None False False] \<rparr>] \<rparr>]"

text \<open>A flow whose second location the resolver rejects, followed by a flow whose
  message the parser of \<open>sample_partial_externals\<close> does not accept: that parser returns
  \<open>undefined\<close> for a message object without text.\<close>

definition sample_failing_flows :: "(string, string) sarif_CodeFlow list" where
  "sample_failing_flows =
     [\<lparr> scf_message = None,
        threadFlows =
          [\<lparr> stf_id = None, stf_message = None,
             locations = [sample_location ''a.c'' None None None,
                          sample_location [] None None None] \<rparr>] \<rparr>,
      \<lparr> scf_message = Some [], threadFlows = [] \<rparr>]"

definition sample_partial_externals :: "(string, string, string) externals" where
  "sample_partial_externals =
     sample_externals\<lparr> parseSarifMessage :=
       (\<lambda>m. case m of None \<Rightarrow> None
                    | Some t \<Rightarrow> if t = [] then None else Some \<lparr> msg_text = t \<rparr>) \<rparr>"

section \<open>Auxiliary definitions for the proofs\<close>

text \<open>The classification of a step, as \<open>createCodeFlowStep\<close> computes its two flags
  from the nesting levels of the step and of its successor.\<close>

definition classify :: "int option \<Rightarrow> int option option \<Rightarrow> bool \<times> bool" where
  "classify cur nxt =
     (case nxt of
        None \<Rightarrow> (False, False)
      | Some n \<Rightarrow>
          if js_lt cur n \<or> (cur = None \<and> n \<noteq> None) then (True, False)
          else if js_gt cur n \<or> (cur \<noteq> None \<and> n = None) then (False, True)
          else (False, False))"

text \<open>The results of a sequence of awaited calls: the first failure, or all the values.\<close>

fun collect :: "(error + 'a) list \<Rightarrow> error + 'a list" where
  "collect [] = Inr []"
| "collect (x # xs) =
     (case x of
        Inl err \<Rightarrow> Inl err
      | Inr y \<Rightarrow> (case collect xs of Inl err \<Rightarrow> Inl err | Inr ys \<Rightarrow> Inr (y # ys)))"

text \<open>The number a decimal string denotes; it inverts \<open>js_nat_to_string\<close>.\<close>

definition decimal_value :: "string \<Rightarrow> nat" where
  "decimal_value s = foldl (\<lambda>a c. 10 * a + (of_char c - 48)) 0 s"

text \<open>
  The remapping loops, seen as one pass over a list: \<open>f k x\<close> is what the body of the
  loop does to the element \<open>x\<close> at index \<open>k\<close>, namely the failure it ends with (if
  any) and the element as it leaves it. The pass stops at the first failure.
\<close>

fun patch :: "(nat \<Rightarrow> 'a \<Rightarrow> error option \<times> 'a) \<Rightarrow> nat \<Rightarrow> 'a list \<Rightarrow> error option \<times> 'a list" where
  "patch f k [] = (None, [])"
| "patch f k (x # xs) =
     (case f k x of
        (Some err, y) \<Rightarrow> (Some err, y # xs)
      | (None, y) \<Rightarrow> (case patch f (Suc k) xs of (r, ys) \<Rightarrow> (r, y # ys)))"

text \<open>The bodies of the three loops of \<open>tryRemapCodeFlows\<close>.\<close>

definition remap_step ::
  "('pl, 'msg, 'l) externals \<Rightarrow> ('pl, 'msg) sarif_CodeFlow list \<Rightarrow> nat \<Rightarrow> nat \<Rightarrow> nat \<Rightarrow>
   'l CodeFlowStep \<Rightarrow> error option \<times> 'l CodeFlowStep" where
  "remap_step ext sarifCodeFlows cFKey tFKey stepKey step =
     (if (case location step of None \<Rightarrow> False | Some l \<Rightarrow> \<not> mapped l) then
        (case js_nth sarifCodeFlows cFKey of
           None \<Rightarrow> (Some TypeError, step)
         | Some scf \<Rightarrow>
            (case js_nth (threadFlows scf) tFKey of
               None \<Rightarrow> (Some TypeError, step)
             | Some stf \<Rightarrow>
                (case js_nth (locations stf) stepKey of
                   None \<Rightarrow> (Some TypeError, step)
                 | Some scfl \<Rightarrow>
                    (case Location_create ext (physicalLocation (cfl_location scfl)) of
                       Inl err \<Rightarrow> (Some err, step)
                     | Inr loc \<Rightarrow> (None, step\<lparr>location := loc\<rparr>)))))
      else (None, step))"

definition remap_thread ::
  "('pl, 'msg, 'l) externals \<Rightarrow> ('pl, 'msg) sarif_CodeFlow list \<Rightarrow> nat \<Rightarrow> nat \<Rightarrow>
   'l ThreadFlow \<Rightarrow> error option \<times> 'l ThreadFlow" where
  "remap_thread ext sarifCodeFlows cFKey tFKey thread =
     (case tryRemapCodeFlows_steps ext sarifCodeFlows cFKey tFKey 0 (steps thread) of
        (failure, sts) \<Rightarrow> (failure, thread\<lparr>steps := sts\<rparr>))"

definition remap_flow ::
  "('pl, 'msg, 'l) externals \<Rightarrow> ('pl, 'msg) sarif_CodeFlow list \<Rightarrow> nat \<Rightarrow>
   'l CodeFlow \<Rightarrow> error option \<times> 'l CodeFlow" where
  "remap_flow ext sarifCodeFlows cFKey codeFlow =
     (case tryRemapCodeFlows_threads ext sarifCodeFlows cFKey 0 (threads codeFlow) of
        (failure, ths) \<Rightarrow> (failure, codeFlow\<lparr>threads := ths\<rparr>))"

text \<open>A tree with the location of every step blanked: two trees that agree on it have
  the same shape and differ at most in the locations of their steps.\<close>

definition clear_step :: "'l CodeFlowStep \<Rightarrow> 'l CodeFlowStep" where
  "clear_step step = step\<lparr>location := None\<rparr>"

definition clear_thread :: "'l ThreadFlow \<Rightarrow> 'l ThreadFlow" where
  "clear_thread thread = thread\<lparr>steps := map clear_step (steps thread)\<rparr>"

definition clear_flow :: "'l CodeFlow \<Rightarrow> 'l CodeFlow" where
  "clear_flow codeFlow = codeFlow\<lparr>threads := map clear_thread (threads codeFlow)\<rparr>"

definition clear_locations :: "'l CodeFlow list \<Rightarrow> 'l CodeFlow list" where
  "clear_locations codeFlows = map clear_flow codeFlows"

text \<open>The raw location \<open>sarifCodeFlows[cFKey].threadFlows[tFKey].locations[stepKey].location\<close>,
  when the three indices are in range.\<close>

definition sarifLoc_at ::
  "('pl, 'msg) sarif_CodeFlow list \<Rightarrow> nat \<Rightarrow> nat \<Rightarrow> nat \<Rightarrow> ('pl, 'msg) sarif_Location option" where
  "sarifLoc_at sarifCodeFlows cFKey tFKey stepKey =
     (case js_nth sarifCodeFlows cFKey of
        None \<Rightarrow> None
      | Some scf \<Rightarrow>
         (case js_nth (threadFlows scf) tFKey of
            None \<Rightarrow> None
          | Some stf \<Rightarrow>
             (case js_nth (locations stf) stepKey of
                None \<Rightarrow> None
              | Some scfl \<Rightarrow> Some (cfl_location scfl))))"

section \<open>Properties\<close>

subsection \<open>One step\<close>

lemma createCodeFlowStep_fields:
  assumes "createCodeFlowStep ext cFLoc nextCFLoc tid = Inr step"
  shows "Location_create ext (physicalLocation (cfl_location cFLoc)) = Inr (location step)"
    and "(isParent step, isLastChild step) = classify (nestingLevel cFLoc) (map_option nestingLevel nextCFLoc)"
    and "message step =
           (let t = (case parseSarifMessage ext (loc_message (cfl_location cFLoc)) of
                       None \<Rightarrow> [] | Some m \<Rightarrow> msg_text m)
            in if t = [] then (if isLastChild step then ''[return call]'' else ''[no description]'') else t)"
    and "messageWithStep step =
           (case cfl_step cFLoc of
              None \<Rightarrow> message step
            | Some n \<Rightarrow> ''Step '' @ js_int_to_string (toString_unsafe ext) n @ '': '' @ message step)"
    and "traversalId step = tid"
proof -
  obtain loc where loc: "Location_create ext (physicalLocation (cfl_location cFLoc)) = Inr loc"
    using assms by (cases "Location_create ext (physicalLocation (cfl_location cFLoc))")
      (simp_all add: createCodeFlowStep_def)
  obtain p l where pl: "classify (nestingLevel cFLoc) (map_option nestingLevel nextCFLoc) = (p, l)"
    by (cases "classify (nestingLevel cFLoc) (map_option nestingLevel nextCFLoc)")
  have pl': "(case nextCFLoc of
                    None \<Rightarrow> (False, False)
                  | Some nxt \<Rightarrow>
                      if js_lt (nestingLevel cFLoc) (nestingLevel nxt) \<or>
                         (nestingLevel cFLoc = None \<and> nestingLevel nxt \<noteq> None)
                      then (True, False)
                      else if js_gt (nestingLevel cFLoc) (nestingLevel nxt) \<or>
                         (nestingLevel cFLoc \<noteq> None \<and> nestingLevel nxt = None)
                      then (False, True)
                      else (False, False)) = (p, l)"
    using pl by (cases nextCFLoc) (simp_all add: classify_def)
  define t0 where "t0 = (case parseSarifMessage ext (loc_message (cfl_location cFLoc)) of
                       None \<Rightarrow> [] | Some m \<Rightarrow> msg_text m)"
  define t where "t = (if t0 = [] then (if l then ''[return call]'' else ''[no description]'') else t0)"
  define w where "w = (case cfl_step cFLoc of
              None \<Rightarrow> t
            | Some n \<Rightarrow> ''Step '' @ js_int_to_string (toString_unsafe ext) n @ '': '' @ t)"
  have "createCodeFlowStep ext cFLoc nextCFLoc tid =
     Inr \<lparr> codeLensCommand = \<lparr> arguments = [\<lparr> request = ''CodeFlowTreeSelectionChange'',
                                       treeid_step = tid \<rparr>],
                       command = ExplorerCallbackCommand ext,
                       title = w \<rparr>,
                    importance = (case cfl_importance cFLoc of None \<Rightarrow> important | Some i \<Rightarrow> i),
                    isLastChild = l,
                    isParent = p,
                    location = loc,
                    message = t,
                    messageWithStep = w,
                    state = cfl_state cFLoc,
                    stepId = cfl_step cFLoc,
                    traversalId = tid \<rparr>"
    unfolding createCodeFlowStep_def loc pl' t0_def t_def w_def by (simp add: Let_def)
  with assms have step: "step = \<lparr> codeLensCommand = \<lparr> arguments = [\<lparr> request = ''CodeFlowTreeSelectionChange'',
                                       treeid_step = tid \<rparr>],
                       command = ExplorerCallbackCommand ext,
                       title = w \<rparr>,
                    importance = (case cfl_importance cFLoc of None \<Rightarrow> important | Some i \<Rightarrow> i),
                    isLastChild = l,
                    isParent = p,
                    location = loc,
                    message = t,
                    messageWithStep = w,
                    state = cfl_state cFLoc,
                    stepId = cfl_step cFLoc,
                    traversalId = tid \<rparr>" by simp
  show "Location_create ext (physicalLocation (cfl_location cFLoc)) = Inr (location step)"
    by (simp add: step loc)
  show "(isParent step, isLastChild step) = classify (nestingLevel cFLoc) (map_option nestingLevel nextCFLoc)"
    by (simp add: step pl)
  show "message step =
           (let t = (case parseSarifMessage ext (loc_message (cfl_location cFLoc)) of
                       None \<Rightarrow> [] | Some m \<Rightarrow> msg_text m)
            in if t = [] then (if isLastChild step then ''[return call]'' else ''[no description]'') else t)"
    by (simp add: step t_def t0_def Let_def)
  show "messageWithStep step =
           (case cfl_step cFLoc of
              None \<Rightarrow> message step
            | Some n \<Rightarrow> ''Step '' @ js_int_to_string (toString_unsafe ext) n @ '': '' @ message step)"
  proof -
    have mt: "message step = t" and mw: "messageWithStep step = w"
      by (simp_all add: step)
    show ?thesis unfolding mt mw w_def ..
  qed
  show "traversalId step = tid"
    by (simp add: step)
qed

lemma createCodeFlowStep_Inl_iff:
  "createCodeFlowStep ext cFLoc nextCFLoc tid = Inl err \<longleftrightarrow>
   Location_create ext (physicalLocation (cfl_location cFLoc)) = Inl err"
  by (cases "Location_create ext (physicalLocation (cfl_location cFLoc))")
     (simp_all add: createCodeFlowStep_def Let_def split: prod.splits)

lemma createCodeFlowStep_total:
  assumes "Location_create ext (physicalLocation (cfl_location cFLoc)) = Inr loc"
  shows "\<exists>step. createCodeFlowStep ext cFLoc nextCFLoc tid = Inr step"
proof (cases "createCodeFlowStep ext cFLoc nextCFLoc tid")
  case (Inl err)
  then show ?thesis using assms by (simp add: createCodeFlowStep_Inl_iff)
next
  case (Inr step)
  then show ?thesis by blast
qed

lemma classify_Some:
  "classify cur (Some nxt) = (p, l) \<Longrightarrow>
     (p \<longleftrightarrow> (\<exists>a b. cur = Some a \<and> nxt = Some b \<and> a < b) \<or> (cur = None \<and> nxt \<noteq> None)) \<and>
     (l \<longleftrightarrow> \<not> p \<and> ((\<exists>a b. cur = Some a \<and> nxt = Some b \<and> a > b) \<or> (cur \<noteq> None \<and> nxt = None))) \<and>
     (cur = nxt \<longrightarrow> \<not> p \<and> \<not> l) \<and> \<not> (p \<and> l)"
  by (cases cur; cases nxt) (auto simp: classify_def js_lt_def js_gt_def split: if_splits)

text \<open>
  Claim C1. A step converted with a next raw location (and a location that resolves)
  is a parent exactly when its nesting level is below the next one, or is undefined
  while the next one is defined; it is a last child exactly when it is not a parent and
  its nesting level is above the next one, or is defined while the next one is
  undefined; equal levels (both undefined included) give neither; never both.
\<close>

theorem createCodeFlowStep_classification:
  assumes "Location_create ext (physicalLocation (cfl_location cFLoc)) = Inr loc"
  shows "\<exists>step. createCodeFlowStep ext cFLoc (Some nextCFLoc) tid = Inr step \<and>
     (isParent step \<longleftrightarrow>
        (\<exists>cur nxt. nestingLevel cFLoc = Some cur \<and> nestingLevel nextCFLoc = Some nxt \<and> cur < nxt) \<or>
        (nestingLevel cFLoc = None \<and> nestingLevel nextCFLoc \<noteq> None)) \<and>
     (isLastChild step \<longleftrightarrow>
        \<not> isParent step \<and>
        ((\<exists>cur nxt. nestingLevel cFLoc = Some cur \<and> nestingLevel nextCFLoc = Some nxt \<and> cur > nxt) \<or>
         (nestingLevel cFLoc \<noteq> None \<and> nestingLevel nextCFLoc = None))) \<and>
     (nestingLevel cFLoc = nestingLevel nextCFLoc \<longrightarrow> \<not> isParent step \<and> \<not> isLastChild step) \<and>
     \<not> (isParent step \<and> isLastChild step)"
proof -
  obtain step where step: "createCodeFlowStep ext cFLoc (Some nextCFLoc) tid = Inr step"
    using createCodeFlowStep_total[OF assms] by blast
  have "classify (nestingLevel cFLoc) (Some (nestingLevel nextCFLoc)) = (isParent step, isLastChild step)"
    using createCodeFlowStep_fields(2)[OF step] by simp
  from classify_Some[OF this] step show ?thesis by blast
qed

theorem createCodeFlowStep_classification_witness:
  "Location_create sample_externals
       (physicalLocation (cfl_location (sample_location ''a.c'' None None None))) =
     Inr (Some \<lparr> mapped = True, details = ''a.c'' \<rparr>) \<and>
   (\<exists>step. createCodeFlowStep sample_externals (sample_location ''a.c'' None None None)
              (Some (sample_location ''b.c'' (Some 2) None None)) ''0_0_0'' = Inr step \<and>
           isParent step \<and> \<not> isLastChild step)"
proof -
  have h: "Location_create sample_externals
       (physicalLocation (cfl_location (sample_location ''a.c'' None None None))) =
     Inr (Some \<lparr> mapped = True, details = ''a.c'' \<rparr>)"
    by (simp add: sample_externals_def sample_location_def)
  from createCodeFlowStep_classification[OF h, of "sample_location ''b.c'' (Some 2) None None" "''0_0_0''"]
  obtain step where "createCodeFlowStep sample_externals (sample_location ''a.c'' None None None)
              (Some (sample_location ''b.c'' (Some 2) None None)) ''0_0_0'' = Inr step"
    and "isParent step" and "\<not> isLastChild step"
    by (auto simp: sample_location_def)
  with h show ?thesis by blast
qed

text \<open>
  Claim C4. When the parsed message of the raw location is absent or has an empty text,
  the message of the step is \<open>[return call]\<close> for a last child and \<open>[no description]\<close>
  otherwise (and the parsed text when there is one). \<open>messageWithStep\<close> is the message
  itself when the raw location has no ordinal, and the message behind \<open>Step n: \<close> when
  it has the ordinal \<open>n\<close>, where \<open>n\<close> is printed as the template literal prints a
  number: in decimal when \<open>n\<close> is a safe integer.
\<close>

theorem createCodeFlowStep_labels:
  assumes "createCodeFlowStep ext cFLoc nextCFLoc tid = Inr step"
  shows "((case parseSarifMessage ext (loc_message (cfl_location cFLoc)) of
             None \<Rightarrow> True | Some m \<Rightarrow> msg_text m = []) \<longrightarrow>
          message step = (if isLastChild step then ''[return call]'' else ''[no description]'')) \<and>
         (\<forall>m. parseSarifMessage ext (loc_message (cfl_location cFLoc)) = Some m \<and> msg_text m \<noteq> [] \<longrightarrow>
          message step = msg_text m) \<and>
         messageWithStep step =
           (case cfl_step cFLoc of
              Some n \<Rightarrow> ''Step '' @ js_int_to_string (toString_unsafe ext) n @ '': '' @ message step
            | None \<Rightarrow> message step) \<and>
         (\<forall>n. cfl_step cFLoc = Some n \<and> 0 \<le> n \<and> n \<le> 9007199254740991 \<longrightarrow>
            messageWithStep step = ''Step '' @ js_nat_to_string (nat n) @ '': '' @ message step) \<and>
         (\<forall>n. cfl_step cFLoc = Some n \<and> - 9007199254740991 \<le> n \<and> n < 0 \<longrightarrow>
            messageWithStep step = ''Step -'' @ js_nat_to_string (nat (- n)) @ '': '' @ message step)"
proof -
  have m: "message step =
           (let t = (case parseSarifMessage ext (loc_message (cfl_location cFLoc)) of
                       None \<Rightarrow> [] | Some m \<Rightarrow> msg_text m)
            in if t = [] then (if isLastChild step then ''[return call]'' else ''[no description]'') else t)"
    by (rule createCodeFlowStep_fields(3)[OF assms])
  have w: "messageWithStep step =
           (case cfl_step cFLoc of
              None \<Rightarrow> message step
            | Some n \<Rightarrow> ''Step '' @ js_int_to_string (toString_unsafe ext) n @ '': '' @ message step)"
    by (rule createCodeFlowStep_fields(4)[OF assms])
  have 1: "(case parseSarifMessage ext (loc_message (cfl_location cFLoc)) of
             None \<Rightarrow> True | Some m \<Rightarrow> msg_text m = []) \<longrightarrow>
          message step = (if isLastChild step then ''[return call]'' else ''[no description]'')"
    unfolding m by (cases "parseSarifMessage ext (loc_message (cfl_location cFLoc))") (simp_all add: Let_def)
  have 2: "\<forall>m. parseSarifMessage ext (loc_message (cfl_location cFLoc)) = Some m \<and> msg_text m \<noteq> [] \<longrightarrow>
          message step = msg_text m"
    unfolding m by (simp add: Let_def)
  have 3: "messageWithStep step =
           (case cfl_step cFLoc of
              Some n \<Rightarrow> ''Step '' @ js_int_to_string (toString_unsafe ext) n @ '': '' @ message step
            | None \<Rightarrow> message step)"
    unfolding w by (cases "cfl_step cFLoc") simp_all
  have 4: "\<forall>n. cfl_step cFLoc = Some n \<and> 0 \<le> n \<and> n \<le> 9007199254740991 \<longrightarrow>
            messageWithStep step = ''Step '' @ js_nat_to_string (nat n) @ '': '' @ message step"
    unfolding w by (simp add: js_int_to_string_def)
  have 5: "\<forall>n. cfl_step cFLoc = Some n \<and> - 9007199254740991 \<le> n \<and> n < 0 \<longrightarrow>
            messageWithStep step = ''Step -'' @ js_nat_to_string (nat (- n)) @ '': '' @ message step"
    unfolding w by (simp add: js_int_to_string_def)
  from 1 2 3 4 5 show ?thesis by blast
qed

theorem createCodeFlowStep_labels_witness:
  "createCodeFlowStep sample_externals (sample_location ''a.c'' (Some 0) (Some ''foo'') (Some 5))
      None ''0_0_0'' =
     Inr (sample_step ''0_0_0'' ''a.c'' True ''foo'' ''Step 5: foo'' (Some 5) False False) \<and>
   messageWithStep (sample_step ''0_0_0'' ''a.c'' True ''foo'' ''Step 5: foo'' (Some 5) False False) =
     ''Step 5: foo'' \<and>
   createCodeFlowStep sample_externals (sample_location ''b.c'' (Some 1) None None)
      (Some (sample_location ''a.c'' (Some 0) None None)) ''0_0_2'' =
     Inr (sample_step ''0_0_2'' ''b.c'' True ''[return call]'' ''[return call]'' None False True) \<and>
   message (sample_step ''0_0_2'' ''b.c'' True ''[return call]'' ''[return call]'' None False True) =
     ''[return call]'' \<and>
   messageWithStep (sample_step ''0_0_2'' ''b.c'' True ''[return call]'' ''[return call]'' None False True) =
     ''[return call]''"
proof -
  have five: "js_nat_to_string (nat 5) = ''5''"
    by (simp add: js_nat_to_string.simps digit_char_def)
  have a: "createCodeFlowStep sample_externals (sample_location ''a.c'' (Some 0) (Some ''foo'') (Some 5))
      None ''0_0_0'' =
     Inr (sample_step ''0_0_0'' ''a.c'' True ''foo'' ''Step 5: foo'' (Some 5) False False)"
    using five
    by (simp add: createCodeFlowStep_def sample_externals_def sample_location_def sample_step_def
          js_int_to_string_def Let_def)
  have b: "createCodeFlowStep sample_externals (sample_location ''b.c'' (Some 1) None None)
      (Some (sample_location ''a.c'' (Some 0) None None)) ''0_0_2'' =
     Inr (sample_step ''0_0_2'' ''b.c'' True ''[return call]'' ''[return call]'' None False True)"
    by (simp add: createCodeFlowStep_def sample_externals_def sample_location_def sample_step_def
          js_lt_def js_gt_def Let_def)
  have ordinal: "cfl_step (sample_location ''a.c'' (Some 0) (Some ''foo'') (Some 5)) = Some 5 \<and>
                 (0::int) \<le> 5 \<and> (5::int) \<le> 9007199254740991"
    by (simp add: sample_location_def)
  have no_message: "parseSarifMessage sample_externals
                      (loc_message (cfl_location (sample_location ''b.c'' (Some 1) None None))) = None"
    and no_ordinal: "cfl_step (sample_location ''b.c'' (Some 1) None None) = None"
    and last_child: "isLastChild (sample_step ''0_0_2'' ''b.c'' True ''[return call]'' ''[return call]''
                                    None False True)"
    by (simp_all add: sample_externals_def sample_location_def sample_step_def)
  note ta = createCodeFlowStep_labels[OF a]
  note tb = createCodeFlowStep_labels[OF b]
  from ta ordinal
  have "messageWithStep (sample_step ''0_0_0'' ''a.c'' True ''foo'' ''Step 5: foo'' (Some 5) False False) =
          ''Step '' @ js_nat_to_string (nat 5) @ '': '' @
          message (sample_step ''0_0_0'' ''a.c'' True ''foo'' ''Step 5: foo'' (Some 5) False False)"
    by blast
  then have wa: "messageWithStep (sample_step ''0_0_0'' ''a.c'' True ''foo'' ''Step 5: foo'' (Some 5) False False) =
          ''Step 5: foo''"
    by (simp add: five sample_step_def)
  from tb have "(case parseSarifMessage sample_externals
                        (loc_message (cfl_location (sample_location ''b.c'' (Some 1) None None))) of
             None \<Rightarrow> True | Some m \<Rightarrow> msg_text m = []) \<longrightarrow>
          message (sample_step ''0_0_2'' ''b.c'' True ''[return call]'' ''[return call]'' None False True) =
            (if isLastChild (sample_step ''0_0_2'' ''b.c'' True ''[return call]'' ''[return call]'' None False True)
             then ''[return call]'' else ''[no description]'')"
    by blast
  then have mb: "message (sample_step ''0_0_2'' ''b.c'' True ''[return call]'' ''[return call]'' None False True) =
            ''[return call]''"
    unfolding no_message using last_child by simp
  from tb have "messageWithStep (sample_step ''0_0_2'' ''b.c'' True ''[return call]'' ''[return call]'' None False True) =
           (case cfl_step (sample_location ''b.c'' (Some 1) None None) of
              Some n \<Rightarrow> ''Step '' @ js_int_to_string (toString_unsafe sample_externals) n @ '': '' @
                message (sample_step ''0_0_2'' ''b.c'' True ''[return call]'' ''[return call]'' None False True)
            | None \<Rightarrow> message (sample_step ''0_0_2'' ''b.c'' True ''[return call]'' ''[return call]'' None False True))"
    by blast
  then have wb: "messageWithStep (sample_step ''0_0_2'' ''b.c'' True ''[return call]'' ''[return call]'' None False True) =
            ''[return call]''"
    unfolding no_ordinal using mb by simp
  from a wa b mb wb show ?thesis by blast
qed

subsection \<open>The conversion loops\<close>

lemma collect_Inr_iff: "collect xs = Inr ys \<longleftrightarrow> xs = map Inr ys"
proof (induction xs arbitrary: ys)
  case Nil
  then show ?case by auto
next
  case (Cons x xs)
  show ?case
  proof (cases x)
    case (Inl err)
    then show ?thesis by auto
  next
    case (Inr y)
    show ?thesis
    proof (cases "collect xs")
      case (Inl err)
      with Cons.IH[of] have "\<And>zs. xs \<noteq> map Inr zs" by auto
      with Inl Inr show ?thesis by (cases ys) auto
    next
      case r: (Inr zs)
      with Cons.IH[of zs] have "xs = map Inr zs" by simp
      with r Inr show ?thesis by (cases ys) (auto simp: inj_map_eq_map)
    qed
  qed
qed

lemma collect_Inl_iff:
  "collect xs = Inl err \<longleftrightarrow>
   (\<exists>n<length xs. xs ! n = Inl err \<and> (\<forall>m<n. \<exists>y. xs ! m = Inr y))"
proof (induction xs)
  case Nil
  then show ?case by simp
next
  case (Cons x xs)
  show ?case
  proof (cases x)
    case (Inl e')
    show ?thesis
    proof
      assume "collect (x # xs) = Inl err"
      with Inl have "e' = err" by simp
      with Inl have "(x # xs) ! 0 = Inl err \<and> (\<forall>m<0. \<exists>y. (x # xs) ! m = Inr y)" by simp
      then show "\<exists>n<length (x # xs). (x # xs) ! n = Inl err \<and> (\<forall>m<n. \<exists>y. (x # xs) ! m = Inr y)"
        by (intro exI[of _ 0]) simp
    next
      assume "\<exists>n<length (x # xs). (x # xs) ! n = Inl err \<and> (\<forall>m<n. \<exists>y. (x # xs) ! m = Inr y)"
      then obtain n where n: "n < length (x # xs)" "(x # xs) ! n = Inl err"
        "\<forall>m<n. \<exists>y. (x # xs) ! m = Inr y" by blast
      have "n = 0"
      proof (rule ccontr)
        assume "n \<noteq> 0"
        then have "0 < n" by simp
        with n(3) obtain y where "(x # xs) ! 0 = Inr y" by blast
        with Inl show False by simp
      qed
      with n(2) Inl show "collect (x # xs) = Inl err" by simp
    qed
  next
    case (Inr y)
    have "collect (x # xs) = Inl err \<longleftrightarrow> collect xs = Inl err"
      using Inr by (cases "collect xs") simp_all
    also have "\<dots> \<longleftrightarrow> (\<exists>n<length xs. xs ! n = Inl err \<and> (\<forall>m<n. \<exists>y. xs ! m = Inr y))"
      by (rule Cons.IH)
    also have "\<dots> \<longleftrightarrow> (\<exists>n<length (x # xs). (x # xs) ! n = Inl err \<and> (\<forall>m<n. \<exists>y. (x # xs) ! m = Inr y))"
    proof
      assume "\<exists>n<length xs. xs ! n = Inl err \<and> (\<forall>m<n. \<exists>y. xs ! m = Inr y)"
      then obtain n where n: "n < length xs" "xs ! n = Inl err" "\<forall>m<n. \<exists>y. xs ! m = Inr y" by blast
      have "\<forall>m<Suc n. \<exists>y. (x # xs) ! m = Inr y"
      proof (intro allI impI)
        fix m assume "m < Suc n"
        then show "\<exists>y. (x # xs) ! m = Inr y" using n(3) Inr by (cases m) auto
      qed
      with n(1,2) show "\<exists>n<length (x # xs). (x # xs) ! n = Inl err \<and> (\<forall>m<n. \<exists>y. (x # xs) ! m = Inr y)"
        by (intro exI[of _ "Suc n"]) simp
    next
      assume "\<exists>n<length (x # xs). (x # xs) ! n = Inl err \<and> (\<forall>m<n. \<exists>y. (x # xs) ! m = Inr y)"
      then obtain n where n: "n < length (x # xs)" "(x # xs) ! n = Inl err"
        "\<forall>m<n. \<exists>y. (x # xs) ! m = Inr y" by blast
      from n(2) Inr obtain k where k: "n = Suc k" by (cases n) auto
      have "\<forall>m<k. \<exists>y. xs ! m = Inr y"
      proof (intro allI impI)
        fix m assume "m < k"
        then have "Suc m < n" using k by simp
        with n(3) obtain y where "(x # xs) ! Suc m = Inr y" by blast
        then show "\<exists>y. xs ! m = Inr y" by simp
      qed
      with n(1,2) k show "\<exists>n<length xs. xs ! n = Inl err \<and> (\<forall>m<n. \<exists>y. xs ! m = Inr y)"
        by (intro exI[of _ k]) simp
    qed
    finally show ?thesis .
  qed
qed

lemma collect_map_upt_Inr:
  assumes "collect (map body [k..<n]) = Inr ys"
  shows "length ys = n - k" and "\<And>i. i < n - k \<Longrightarrow> body (k + i) = Inr (ys ! i)"
proof -
  from assms have eq: "map body [k..<n] = map Inr ys" by (simp add: collect_Inr_iff)
  from arg_cong[OF eq, of length] show len: "length ys = n - k" by simp
  fix i assume i: "i < n - k"
  from arg_cong[OF eq, of "\<lambda>zs. zs ! i"] i len show "body (k + i) = Inr (ys ! i)" by simp
qed

lemma collect_map_upt_Inl:
  "collect (map body [k..<n]) = Inl err \<longleftrightarrow>
   (\<exists>i. k \<le> i \<and> i < n \<and> body i = Inl err \<and> (\<forall>m. k \<le> m \<and> m < i \<longrightarrow> (\<exists>y. body m = Inr y)))"
proof
  assume "collect (map body [k..<n]) = Inl err"
  then obtain j where j: "j < n - k" "body (k + j) = Inl err"
    "\<forall>m<j. \<exists>y. map body [k..<n] ! m = Inr y"
    by (auto simp: collect_Inl_iff)
  have "\<forall>m. k \<le> m \<and> m < k + j \<longrightarrow> (\<exists>y. body m = Inr y)"
  proof (intro allI impI)
    fix m assume m: "k \<le> m \<and> m < k + j"
    then have "m - k < j" by arith
    with j(3) obtain y where "map body [k..<n] ! (m - k) = Inr y" by blast
    moreover have "m - k < n - k" using m j(1) by arith
    ultimately show "\<exists>y. body m = Inr y" using m by simp
  qed
  with j(1,2) show "\<exists>i. k \<le> i \<and> i < n \<and> body i = Inl err \<and> (\<forall>m. k \<le> m \<and> m < i \<longrightarrow> (\<exists>y. body m = Inr y))"
    by (intro exI[of _ "k + j"]) auto
next
  assume "\<exists>i. k \<le> i \<and> i < n \<and> body i = Inl err \<and> (\<forall>m. k \<le> m \<and> m < i \<longrightarrow> (\<exists>y. body m = Inr y))"
  then obtain i where i: "k \<le> i" "i < n" "body i = Inl err"
    "\<forall>m. k \<le> m \<and> m < i \<longrightarrow> (\<exists>y. body m = Inr y)" by blast
  have "\<forall>m<i - k. \<exists>y. map body [k..<n] ! m = Inr y"
  proof (intro allI impI)
    fix m assume "m < i - k"
    then have "k \<le> k + m \<and> k + m < i" "m < n - k" using i(1,2) by arith+
    with i(4) show "\<exists>y. map body [k..<n] ! m = Inr y" by simp
  qed
  moreover have "i - k < length (map body [k..<n])" "map body [k..<n] ! (i - k) = Inl err"
    using i(1,2,3) by simp_all
  ultimately show "collect (map body [k..<n]) = Inl err"
    unfolding collect_Inl_iff by blast
qed

lemma createThreadFlow_loop_collect:
  "createThreadFlow_loop ext locs tid k acc =
     (case collect (map (\<lambda>n. createCodeFlowStep ext (locs ! n) (js_nth locs (n + 1))
                                (tid @ ''_'' @ js_nat_to_string n)) [k..<length locs]) of
        Inl err \<Rightarrow> Inl err
      | Inr ys \<Rightarrow> Inr (acc @ ys))"
proof (induction ext locs tid k acc rule: createThreadFlow_loop.induct)
  case (1 ext locs tid k acc)
  show ?case
  proof (cases "k < length locs")
    case False
    then show ?thesis by (subst createThreadFlow_loop.simps) simp
  next
    case True
    then have upt: "[k..<length locs] = k # [Suc k..<length locs]" by (rule upt_conv_Cons)
    show ?thesis
    proof (cases "createCodeFlowStep ext (locs ! k) (js_nth locs (k + 1)) (tid @ ''_'' @ js_nat_to_string k)")
      case (Inl err)
      then show ?thesis using True by (subst createThreadFlow_loop.simps) (simp add: upt)
    next
      case (Inr step)
      from "1.IH"[OF True Inr] Inr True show ?thesis
        by (subst createThreadFlow_loop.simps) (simp add: upt split: sum.splits)
    qed
  qed
qed

lemma createCodeFlow_loop_collect:
  "createCodeFlow_loop ext tfs tid k acc =
     (case collect (map (\<lambda>n. createThreadFlow ext (tfs ! n) (tid @ ''_'' @ js_nat_to_string n))
                     [k..<length tfs]) of
        Inl err \<Rightarrow> Inl err
      | Inr ys \<Rightarrow> Inr (acc @ ys))"
proof (induction ext tfs tid k acc rule: createCodeFlow_loop.induct)
  case (1 ext tfs tid k acc)
  show ?case
  proof (cases "k < length tfs")
    case False
    then show ?thesis by (subst createCodeFlow_loop.simps) simp
  next
    case True
    then have upt: "[k..<length tfs] = k # [Suc k..<length tfs]" by (rule upt_conv_Cons)
    show ?thesis
    proof (cases "createThreadFlow ext (tfs ! k) (tid @ ''_'' @ js_nat_to_string k)")
      case (Inl err)
      then show ?thesis using True by (subst createCodeFlow_loop.simps) (simp add: upt)
    next
      case (Inr th)
      from "1.IH"[OF True Inr] Inr True show ?thesis
        by (subst createCodeFlow_loop.simps) (simp add: upt split: sum.splits)
    qed
  qed
qed

lemma create_loop_collect:
  "create_loop ext scfs k acc =
     (case collect (map (\<lambda>n. createCodeFlow ext (scfs ! n) (js_nat_to_string n))
                     [k..<length scfs]) of
        Inl err \<Rightarrow> Inl err
      | Inr ys \<Rightarrow> Inr (acc @ ys))"
proof (induction ext scfs k acc rule: create_loop.induct)
  case (1 ext scfs k acc)
  show ?case
  proof (cases "k < length scfs")
    case False
    then show ?thesis by (subst create_loop.simps) simp
  next
    case True
    then have upt: "[k..<length scfs] = k # [Suc k..<length scfs]" by (rule upt_conv_Cons)
    show ?thesis
    proof (cases "createCodeFlow ext (scfs ! k) (js_nat_to_string k)")
      case (Inl err)
      then show ?thesis using True by (subst create_loop.simps) (simp add: upt)
    next
      case (Inr cf)
      from "1.IH"[OF True Inr] Inr True show ?thesis
        by (subst create_loop.simps) (simp add: upt split: sum.splits)
    qed
  qed
qed

subsection \<open>Conversion: what a successful call returns\<close>

lemma parse_message_cases:
  "(case (case msg of
            None \<Rightarrow> Inr None
          | Some m \<Rightarrow>
              (case parseSarifMessage ext (Some m) of
                 None \<Rightarrow> Inl TypeError
               | Some p \<Rightarrow> Inr (Some (msg_text p)))) of
      Inl err \<Rightarrow> Inl err
    | Inr t \<Rightarrow> (case body of Inl err \<Rightarrow> Inl err | Inr ys \<Rightarrow> Inr (mk t ys))) = Inr r \<longleftrightarrow>
   (\<exists>t ys. body = Inr ys \<and> r = mk t ys \<and>
      (msg = None \<and> t = None \<or>
       (\<exists>m p. msg = Some m \<and> parseSarifMessage ext (Some m) = Some p \<and> t = Some (msg_text p))))"
  by (cases msg; cases body; cases "parseSarifMessage ext msg") auto

lemma createThreadFlow_Inr:
  assumes "createThreadFlow ext sarifTF tid = Inr th"
  shows "tf_id th = stf_id sarifTF"
    and "length (steps th) = length (locations sarifTF)"
    and "\<And>k. k < length (locations sarifTF) \<Longrightarrow>
           createCodeFlowStep ext (locations sarifTF ! k) (js_nth (locations sarifTF) (k + 1))
             (tid @ ''_'' @ js_nat_to_string k) = Inr (steps th ! k)"
    and "stf_message sarifTF = None \<Longrightarrow> tf_message th = None"
    and "\<And>m. stf_message sarifTF = Some m \<Longrightarrow>
           \<exists>p. parseSarifMessage ext (Some m) = Some p \<and> tf_message th = Some (msg_text p)"
proof -
  from assms obtain t sts where
    loop: "createThreadFlow_loop ext (locations sarifTF) tid 0 [] = Inr sts" and
    th: "th = \<lparr> tf_id = stf_id sarifTF, tf_message = t, steps = sts \<rparr>" and
    t: "stf_message sarifTF = None \<and> t = None \<or>
        (\<exists>m p. stf_message sarifTF = Some m \<and> parseSarifMessage ext (Some m) = Some p \<and>
               t = Some (msg_text p))"
    unfolding createThreadFlow_def parse_message_cases by blast
  from loop have c: "collect (map (\<lambda>n. createCodeFlowStep ext (locations sarifTF ! n)
         (js_nth (locations sarifTF) (n + 1)) (tid @ ''_'' @ js_nat_to_string n))
         [0..<length (locations sarifTF)]) = Inr sts"
    by (simp add: createThreadFlow_loop_collect split: sum.splits)
  show "tf_id th = stf_id sarifTF" by (simp add: th)
  show "length (steps th) = length (locations sarifTF)"
    using collect_map_upt_Inr(1)[OF c] by (simp add: th)
  show "createCodeFlowStep ext (locations sarifTF ! k) (js_nth (locations sarifTF) (k + 1))
             (tid @ ''_'' @ js_nat_to_string k) = Inr (steps th ! k)"
    if "k < length (locations sarifTF)" for k
    using collect_map_upt_Inr(2)[OF c, of k] that by (simp add: th)
  show "tf_message th = None" if "stf_message sarifTF = None"
    using t that by (auto simp: th)
  show "\<exists>p. parseSarifMessage ext (Some m) = Some p \<and> tf_message th = Some (msg_text p)"
    if "stf_message sarifTF = Some m" for m
    using t that by (auto simp: th)
qed

lemma createCodeFlow_Inr:
  assumes "createCodeFlow ext sarifCF tid = Inr cf"
  shows "length (threads cf) = length (threadFlows sarifCF)"
    and "\<And>j. j < length (threadFlows sarifCF) \<Longrightarrow>
           createThreadFlow ext (threadFlows sarifCF ! j) (tid @ ''_'' @ js_nat_to_string j) =
             Inr (threads cf ! j)"
    and "scf_message sarifCF = None \<Longrightarrow> cf_message cf = None"
    and "\<And>m. scf_message sarifCF = Some m \<Longrightarrow>
           \<exists>p. parseSarifMessage ext (Some m) = Some p \<and> cf_message cf = Some (msg_text p)"
proof -
  from assms obtain t ths where
    loop: "createCodeFlow_loop ext (threadFlows sarifCF) tid 0 [] = Inr ths" and
    cf: "cf = \<lparr> cf_message = t, threads = ths \<rparr>" and
    t: "scf_message sarifCF = None \<and> t = None \<or>
        (\<exists>m p. scf_message sarifCF = Some m \<and> parseSarifMessage ext (Some m) = Some p \<and>
               t = Some (msg_text p))"
    unfolding createCodeFlow_def parse_message_cases by blast
  from loop have c: "collect (map (\<lambda>n. createThreadFlow ext (threadFlows sarifCF ! n)
         (tid @ ''_'' @ js_nat_to_string n)) [0..<length (threadFlows sarifCF)]) = Inr ths"
    by (simp add: createCodeFlow_loop_collect split: sum.splits)
  show "length (threads cf) = length (threadFlows sarifCF)"
    using collect_map_upt_Inr(1)[OF c] by (simp add: cf)
  show "createThreadFlow ext (threadFlows sarifCF ! j) (tid @ ''_'' @ js_nat_to_string j) =
             Inr (threads cf ! j)"
    if "j < length (threadFlows sarifCF)" for j
    using collect_map_upt_Inr(2)[OF c, of j] that by (simp add: cf)
  show "cf_message cf = None" if "scf_message sarifCF = None"
    using t that by (auto simp: cf)
  show "\<exists>p. parseSarifMessage ext (Some m) = Some p \<and> cf_message cf = Some (msg_text p)"
    if "scf_message sarifCF = Some m" for m
    using t that by (auto simp: cf)
qed

lemma create_Some_Inr:
  assumes "create ext (Some scfs) = Inr r" and "scfs \<noteq> []"
  shows "\<exists>codeFlows. r = Some codeFlows \<and> length codeFlows = length scfs \<and>
           (\<forall>i<length scfs. createCodeFlow ext (scfs ! i) (js_nat_to_string i) = Inr (codeFlows ! i))"
proof -
  from assms obtain codeFlows where
    loop: "create_loop ext scfs 0 [] = Inr codeFlows" and r: "r = Some codeFlows"
    by (auto simp: create_def split: sum.splits)
  from loop have c: "collect (map (\<lambda>n. createCodeFlow ext (scfs ! n) (js_nat_to_string n))
                       [0..<length scfs]) = Inr codeFlows"
    by (simp add: create_loop_collect split: sum.splits)
  have "length codeFlows = length scfs"
    using collect_map_upt_Inr(1)[OF c] by simp
  moreover have "\<forall>i<length scfs. createCodeFlow ext (scfs ! i) (js_nat_to_string i) = Inr (codeFlows ! i)"
    using collect_map_upt_Inr(2)[OF c] by simp
  ultimately show ?thesis using r by blast
qed

lemma create_Inr_Some:
  assumes "create ext sarifCodeFlows = Inr (Some codeFlows)"
  shows "\<exists>scfs. sarifCodeFlows = Some scfs \<and> scfs \<noteq> [] \<and> length codeFlows = length scfs \<and>
           (\<forall>i<length scfs. createCodeFlow ext (scfs ! i) (js_nat_to_string i) = Inr (codeFlows ! i))"
proof -
  from assms obtain scfs where s: "sarifCodeFlows = Some scfs" "scfs \<noteq> []"
    by (cases sarifCodeFlows) (auto simp: create_def split: if_splits)
  from create_Some_Inr[OF assms[unfolded s(1)] s(2)] s show ?thesis by auto
qed

lemma create_total:
  assumes "\<forall>i<length scfs. \<exists>cf. createCodeFlow ext (scfs ! i) (js_nat_to_string i) = Inr cf"
    and "scfs \<noteq> []"
  shows "\<exists>codeFlows. create ext (Some scfs) = Inr (Some codeFlows)"
proof (cases "collect (map (\<lambda>n. createCodeFlow ext (scfs ! n) (js_nat_to_string n)) [0..<length scfs])")
  case (Inl err)
  then obtain i where "i < length scfs" "createCodeFlow ext (scfs ! i) (js_nat_to_string i) = Inl err"
    unfolding collect_map_upt_Inl by blast
  with assms(1) show ?thesis by auto
next
  case (Inr codeFlows)
  then show ?thesis using assms(2) by (simp add: create_def create_loop_collect)
qed

lemma create_tree:
  assumes "create ext (Some scfs) = Inr (Some codeFlows)"
  shows "length codeFlows = length scfs \<and>
    (\<forall>i<length scfs.
       length (threads (codeFlows ! i)) = length (threadFlows (scfs ! i)) \<and>
       (\<forall>j<length (threadFlows (scfs ! i)).
          tf_id (threads (codeFlows ! i) ! j) = stf_id (threadFlows (scfs ! i) ! j) \<and>
          length (steps (threads (codeFlows ! i) ! j)) = length (locations (threadFlows (scfs ! i) ! j)) \<and>
          (\<forall>k<length (locations (threadFlows (scfs ! i) ! j)).
             createCodeFlowStep ext (locations (threadFlows (scfs ! i) ! j) ! k)
                 (js_nth (locations (threadFlows (scfs ! i) ! j)) (k + 1))
                 (js_nat_to_string i @ ''_'' @ js_nat_to_string j @ ''_'' @ js_nat_to_string k) =
               Inr (steps (threads (codeFlows ! i) ! j) ! k))))"
proof -
  from create_Inr_Some[OF assms] have
    len: "length codeFlows = length scfs" and
    flows: "\<forall>i<length scfs. createCodeFlow ext (scfs ! i) (js_nat_to_string i) = Inr (codeFlows ! i)"
    by auto
  have "length (threads (codeFlows ! i)) = length (threadFlows (scfs ! i)) \<and>
       (\<forall>j<length (threadFlows (scfs ! i)).
          tf_id (threads (codeFlows ! i) ! j) = stf_id (threadFlows (scfs ! i) ! j) \<and>
          length (steps (threads (codeFlows ! i) ! j)) = length (locations (threadFlows (scfs ! i) ! j)) \<and>
          (\<forall>k<length (locations (threadFlows (scfs ! i) ! j)).
             createCodeFlowStep ext (locations (threadFlows (scfs ! i) ! j) ! k)
                 (js_nth (locations (threadFlows (scfs ! i) ! j)) (k + 1))
                 (js_nat_to_string i @ ''_'' @ js_nat_to_string j @ ''_'' @ js_nat_to_string k) =
               Inr (steps (threads (codeFlows ! i) ! j) ! k)))"
    if i: "i < length scfs" for i
  proof -
    from flows i have cf: "createCodeFlow ext (scfs ! i) (js_nat_to_string i) = Inr (codeFlows ! i)"
      by simp
    have "tf_id (threads (codeFlows ! i) ! j) = stf_id (threadFlows (scfs ! i) ! j) \<and>
          length (steps (threads (codeFlows ! i) ! j)) = length (locations (threadFlows (scfs ! i) ! j)) \<and>
          (\<forall>k<length (locations (threadFlows (scfs ! i) ! j)).
             createCodeFlowStep ext (locations (threadFlows (scfs ! i) ! j) ! k)
                 (js_nth (locations (threadFlows (scfs ! i) ! j)) (k + 1))
                 (js_nat_to_string i @ ''_'' @ js_nat_to_string j @ ''_'' @ js_nat_to_string k) =
               Inr (steps (threads (codeFlows ! i) ! j) ! k))"
      if j: "j < length (threadFlows (scfs ! i))" for j
    proof -
      have th: "createThreadFlow ext (threadFlows (scfs ! i) ! j)
                  (js_nat_to_string i @ ''_'' @ js_nat_to_string j) = Inr (threads (codeFlows ! i) ! j)"
        by (rule createCodeFlow_Inr(2)[OF cf j])
      show ?thesis
        using createThreadFlow_Inr(1,2)[OF th] createThreadFlow_Inr(3)[OF th] by simp
    qed
    with createCodeFlow_Inr(1)[OF cf] show ?thesis by blast
  qed
  with len show ?thesis by blast
qed

lemma create_tree_levels:
  assumes "create ext (Some scfs) = Inr (Some codeFlows)"
    and "i < length scfs"
  shows "createCodeFlow ext (scfs ! i) (js_nat_to_string i) = Inr (codeFlows ! i)"
    and "j < length (threadFlows (scfs ! i)) \<Longrightarrow>
         createThreadFlow ext (threadFlows (scfs ! i) ! j)
           (js_nat_to_string i @ ''_'' @ js_nat_to_string j) = Inr (threads (codeFlows ! i) ! j)"
proof -
  from create_Inr_Some[OF assms(1)] assms(2)
  show cf: "createCodeFlow ext (scfs ! i) (js_nat_to_string i) = Inr (codeFlows ! i)"
    by auto
  show "createThreadFlow ext (threadFlows (scfs ! i) ! j)
           (js_nat_to_string i @ ''_'' @ js_nat_to_string j) = Inr (threads (codeFlows ! i) ! j)"
    if "j < length (threadFlows (scfs ! i))"
    by (rule createCodeFlow_Inr(2)[OF cf that])
qed

subsection \<open>The sample input, evaluated\<close>

lemma js_nat_to_string_digits:
  "js_nat_to_string 0 = ''0''" "js_nat_to_string 1 = ''1''" "js_nat_to_string 2 = ''2''"
  "js_nat_to_string 3 = ''3''" "js_nat_to_string 5 = ''5''"
  "js_nat_to_string (Suc 0) = ''1''" "js_nat_to_string (Suc (Suc 0)) = ''2''"
  "js_nat_to_string (Suc (Suc (Suc 0))) = ''3''"
  by (simp_all add: js_nat_to_string.simps digit_char_def)

lemma create_sample:
  "create sample_externals (Some sample_flows) = Inr (Some (sample_tree False))"
  by (simp add: create_def create_loop.simps createCodeFlow_def createCodeFlow_loop.simps
        createThreadFlow_def createThreadFlow_loop.simps createCodeFlowStep_def
        sample_flows_def sample_thread_def sample_location_def sample_externals_def
        sample_tree_def sample_step_def js_nth_def js_lt_def js_gt_def js_int_to_string_def
        js_nat_to_string_digits Let_def)

lemma tryRemapCodeFlows_sample:
  "tryRemapCodeFlows sample_externals_later (sample_tree False) sample_flows = (None, sample_tree True)"
  by (simp add: tryRemapCodeFlows_def tryRemapCodeFlows_flows.simps tryRemapCodeFlows_threads.simps
        tryRemapCodeFlows_steps.simps
        sample_flows_def sample_thread_def sample_location_def sample_externals_def
        sample_externals_later_def sample_tree_def sample_step_def js_nth_def Let_def)

subsection \<open>The flow set\<close>

text \<open>
  Claim C2. \<open>create\<close> returns \<open>undefined\<close>, not an empty array, for an argument that is
  \<open>undefined\<close> or empty. For a non-empty array, whatever it returns is an array of
  the same length whose element \<open>i\<close> is the conversion of the raw code flow \<open>i\<close> with
  the traversal id \<open>i\<close>; and it does return when every code flow converts.
\<close>

theorem create_result:
  "create ext None = Inr None \<and>
   create ext (Some []) = Inr None \<and>
   (scfs \<noteq> [] \<longrightarrow>
      (\<forall>r. create ext (Some scfs) = Inr r \<longrightarrow>
         (\<exists>codeFlows. r = Some codeFlows \<and> length codeFlows = length scfs \<and>
            (\<forall>i<length scfs.
               createCodeFlow ext (scfs ! i) (js_nat_to_string i) = Inr (codeFlows ! i)))) \<and>
      ((\<forall>i<length scfs. \<exists>cf. createCodeFlow ext (scfs ! i) (js_nat_to_string i) = Inr cf) \<longrightarrow>
         (\<exists>codeFlows. create ext (Some scfs) = Inr (Some codeFlows))))"
proof -
  have 1: "create ext None = Inr None" by (simp add: create_def)
  have 2: "create ext (Some []) = Inr None" by (simp add: create_def)
  have 3: "scfs \<noteq> [] \<longrightarrow>
      (\<forall>r. create ext (Some scfs) = Inr r \<longrightarrow>
         (\<exists>codeFlows. r = Some codeFlows \<and> length codeFlows = length scfs \<and>
            (\<forall>i<length scfs.
               createCodeFlow ext (scfs ! i) (js_nat_to_string i) = Inr (codeFlows ! i))))"
    using create_Some_Inr by blast
  have 4: "scfs \<noteq> [] \<longrightarrow>
      ((\<forall>i<length scfs. \<exists>cf. createCodeFlow ext (scfs ! i) (js_nat_to_string i) = Inr cf) \<longrightarrow>
         (\<exists>codeFlows. create ext (Some scfs) = Inr (Some codeFlows)))"
    using create_total by blast
  from 1 2 3 4 show ?thesis by blast
qed

theorem create_result_witness:
  "sample_flows \<noteq> [] \<and>
   create sample_externals (Some sample_flows) = Inr (Some (sample_tree False)) \<and>
   length (sample_tree False) = length sample_flows \<and>
   createCodeFlow sample_externals (sample_flows ! 0) (js_nat_to_string 0) =
     Inr (sample_tree False ! 0)"
proof -
  have ne: "sample_flows \<noteq> []" by (simp add: sample_flows_def)
  from create_result[of sample_externals sample_flows] ne create_sample
  obtain codeFlows where c: "Some (sample_tree False) = Some codeFlows"
    "length codeFlows = length sample_flows"
    "\<forall>i<length sample_flows.
       createCodeFlow sample_externals (sample_flows ! i) (js_nat_to_string i) = Inr (codeFlows ! i)"
    by blast
  from ne have "0 < length sample_flows" by simp
  with c ne create_sample show ?thesis by auto
qed

text \<open>
  Claim C10. The tree \<open>create\<close> returns has the index structure of the raw array: as
  many flows, in each flow as many threads, in each thread as many steps, the step at
  \<open>(i, j, k)\<close> being the conversion of the raw location at \<open>(i, j, k)\<close> (with its
  successor in the thread, and the traversal id of its indices), thread \<open>(i, j)\<close> the
  conversion of the raw thread \<open>(i, j)\<close> and flow \<open>i\<close> that of the raw flow \<open>i\<close>. So
  the raw location that \<open>tryRemapCodeFlows\<close> reads for a step of the tree is there.
\<close>

theorem create_shape:
  assumes "create ext (Some scfs) = Inr (Some codeFlows)"
  shows "length codeFlows = length scfs \<and>
    (\<forall>i<length scfs.
       createCodeFlow ext (scfs ! i) (js_nat_to_string i) = Inr (codeFlows ! i) \<and>
       length (threads (codeFlows ! i)) = length (threadFlows (scfs ! i)) \<and>
       (\<forall>j<length (threadFlows (scfs ! i)).
          createThreadFlow ext (threadFlows (scfs ! i) ! j)
              (js_nat_to_string i @ ''_'' @ js_nat_to_string j) =
            Inr (threads (codeFlows ! i) ! j) \<and>
          length (steps (threads (codeFlows ! i) ! j)) = length (locations (threadFlows (scfs ! i) ! j)) \<and>
          (\<forall>k<length (locations (threadFlows (scfs ! i) ! j)).
             createCodeFlowStep ext (locations (threadFlows (scfs ! i) ! j) ! k)
                 (js_nth (locations (threadFlows (scfs ! i) ! j)) (k + 1))
                 (js_nat_to_string i @ ''_'' @ js_nat_to_string j @ ''_'' @ js_nat_to_string k) =
               Inr (steps (threads (codeFlows ! i) ! j) ! k) \<and>
             sarifLoc_at scfs i j k =
               Some (cfl_location (locations (threadFlows (scfs ! i) ! j) ! k)))))"
proof -
  have loc: "sarifLoc_at scfs i j k = Some (cfl_location (locations (threadFlows (scfs ! i) ! j) ! k))"
    if "i < length scfs" "j < length (threadFlows (scfs ! i))"
       "k < length (locations (threadFlows (scfs ! i) ! j))" for i j k
    using that by (simp add: sarifLoc_at_def js_nth_def)
  from create_tree[OF assms] create_tree_levels[OF assms] loc show ?thesis by simp
qed

theorem create_shape_witness:
  "create sample_externals (Some sample_flows) = Inr (Some (sample_tree False)) \<and>
   length (sample_tree False) = length sample_flows \<and>
   length (threads (sample_tree False ! 0)) = length (threadFlows (sample_flows ! 0)) \<and>
   length (steps (threads (sample_tree False ! 0) ! 0)) =
     length (locations (threadFlows (sample_flows ! 0) ! 0))"
proof -
  have "0 < length sample_flows" "0 < length (threadFlows (sample_flows ! 0))"
    by (simp_all add: sample_flows_def)
  with create_shape[OF create_sample] create_sample show ?thesis by simp
qed

subsection \<open>The last step of a thread\<close>

lemma createThreadFlow_last_step:
  assumes "createThreadFlow ext sarifTF tid = Inr th" and "steps th \<noteq> []"
  shows "\<not> isParent (last (steps th)) \<and> \<not> isLastChild (last (steps th))"
proof -
  let ?locs = "locations sarifTF"
  let ?k = "length ?locs - 1"
  have len: "length (steps th) = length ?locs" by (rule createThreadFlow_Inr(2)[OF assms(1)])
  with assms(2) have k: "?k < length ?locs" by (cases ?locs) auto
  have nxt: "js_nth ?locs (?k + 1) = None" using k by (simp add: js_nth_def)
  have "createCodeFlowStep ext (?locs ! ?k) None (tid @ ''_'' @ js_nat_to_string ?k) = Inr (steps th ! ?k)"
    using createThreadFlow_Inr(3)[OF assms(1) k] unfolding nxt .
  from createCodeFlowStep_fields(2)[OF this]
  have "\<not> isParent (steps th ! ?k) \<and> \<not> isLastChild (steps th ! ?k)"
    by (simp add: classify_def)
  moreover have "last (steps th) = steps th ! ?k"
    using assms(2) len by (simp add: last_conv_nth)
  ultimately show ?thesis by simp
qed

text \<open>
  Claim C3. In every thread of every flow that \<open>create\<close> returns, the last step (when
  the thread has a step) is neither a parent nor a last child.
\<close>

theorem create_last_step:
  assumes "create ext sarifCodeFlows = Inr (Some codeFlows)"
    and "cf \<in> set codeFlows" and "th \<in> set (threads cf)" and "steps th \<noteq> []"
  shows "\<not> isParent (last (steps th)) \<and> \<not> isLastChild (last (steps th))"
proof -
  from create_Inr_Some[OF assms(1)] obtain scfs where
    len: "length codeFlows = length scfs" and
    flows: "\<forall>i<length scfs. createCodeFlow ext (scfs ! i) (js_nat_to_string i) = Inr (codeFlows ! i)"
    by blast
  from assms(2) obtain i where i: "i < length codeFlows" "cf = codeFlows ! i"
    by (auto simp: in_set_conv_nth)
  with flows len have cf: "createCodeFlow ext (scfs ! i) (js_nat_to_string i) = Inr cf" by simp
  from assms(3) obtain j where j: "j < length (threads cf)" "th = threads cf ! j"
    by (auto simp: in_set_conv_nth)
  with createCodeFlow_Inr(1,2)[OF cf]
  have "createThreadFlow ext (threadFlows (scfs ! i) ! j) (js_nat_to_string i @ ''_'' @ js_nat_to_string j) = Inr th"
    by simp
  from createThreadFlow_last_step[OF this assms(4)] show ?thesis .
qed

theorem create_last_step_witness:
  "create sample_externals (Some sample_flows) = Inr (Some (sample_tree False)) \<and>
   sample_tree False ! 0 \<in> set (sample_tree False) \<and>
   threads (sample_tree False ! 0) ! 0 \<in> set (threads (sample_tree False ! 0)) \<and>
   steps (threads (sample_tree False ! 0) ! 0) \<noteq> [] \<and>
   \<not> isParent (last (steps (threads (sample_tree False ! 0) ! 0))) \<and>
   \<not> isLastChild (last (steps (threads (sample_tree False ! 0) ! 0)))"
proof -
  have a: "sample_tree False ! 0 \<in> set (sample_tree False)"
    and b: "threads (sample_tree False ! 0) ! 0 \<in> set (threads (sample_tree False ! 0))"
    and c: "steps (threads (sample_tree False ! 0) ! 0) \<noteq> []"
    by (simp_all add: sample_tree_def)
  from create_last_step[OF create_sample a b c] create_sample a b c show ?thesis by blast
qed

subsection \<open>Messages of flows and threads\<close>

text \<open>
  Claim C7, as the code has it. The message of a converted flow, and of a converted
  thread, is \<open>undefined\<close> exactly when the raw message is \<open>undefined\<close>. Every other raw
  message, an empty one included, goes to the parser, and the converted message is the
  text of what the parser returns, whatever that text is.
\<close>

theorem message_optional_resolve:
  "(createCodeFlow ext sarifCF tid = Inr cf \<longrightarrow>
      (scf_message sarifCF = None \<longrightarrow> cf_message cf = None) \<and>
      (\<forall>m. scf_message sarifCF = Some m \<longrightarrow>
         (\<exists>p. parseSarifMessage ext (Some m) = Some p \<and> cf_message cf = Some (msg_text p)))) \<and>
   (createThreadFlow ext sarifTF tid' = Inr th \<longrightarrow>
      (stf_message sarifTF = None \<longrightarrow> tf_message th = None) \<and>
      (\<forall>m. stf_message sarifTF = Some m \<longrightarrow>
         (\<exists>p. parseSarifMessage ext (Some m) = Some p \<and> tf_message th = Some (msg_text p))))"
proof -
  have 1: "createCodeFlow ext sarifCF tid = Inr cf \<longrightarrow>
      (scf_message sarifCF = None \<longrightarrow> cf_message cf = None) \<and>
      (\<forall>m. scf_message sarifCF = Some m \<longrightarrow>
         (\<exists>p. parseSarifMessage ext (Some m) = Some p \<and> cf_message cf = Some (msg_text p)))"
    using createCodeFlow_Inr(3,4)[of ext sarifCF tid cf] by blast
  have 2: "createThreadFlow ext sarifTF tid' = Inr th \<longrightarrow>
      (stf_message sarifTF = None \<longrightarrow> tf_message th = None) \<and>
      (\<forall>m. stf_message sarifTF = Some m \<longrightarrow>
         (\<exists>p. parseSarifMessage ext (Some m) = Some p \<and> tf_message th = Some (msg_text p)))"
    using createThreadFlow_Inr(4,5)[of ext sarifTF tid' th] by blast
  from 1 2 show ?thesis by blast
qed

theorem message_optional_resolve_witness:
  "createCodeFlow sample_externals (sample_flows ! 0) ''0'' = Inr (sample_tree False ! 0) \<and>
   scf_message (sample_flows ! 0) = Some ''trace'' \<and>
   (\<exists>p. parseSarifMessage sample_externals (Some ''trace'') = Some p \<and>
        cf_message (sample_tree False ! 0) = Some (msg_text p)) \<and>
   createThreadFlow sample_externals sample_thread ''0_0'' = Inr (threads (sample_tree False ! 0) ! 0) \<and>
   stf_message sample_thread = None \<and>
   tf_message (threads (sample_tree False ! 0) ! 0) = None"
proof -
  have cf: "createCodeFlow sample_externals (sample_flows ! 0) ''0'' = Inr (sample_tree False ! 0)"
    using create_Some_Inr[OF create_sample]
    by (simp add: sample_flows_def js_nat_to_string_digits)
  have th: "createThreadFlow sample_externals sample_thread ''0_0'' =
              Inr (threads (sample_tree False ! 0) ! 0)"
    using createCodeFlow_Inr(2)[OF cf, of 0]
    by (simp add: sample_flows_def js_nat_to_string_digits)
  have m: "scf_message (sample_flows ! 0) = Some ''trace''" "stf_message sample_thread = None"
    by (simp_all add: sample_flows_def sample_thread_def)
  from message_optional_resolve[of sample_externals "sample_flows ! 0" "''0''" "sample_tree False ! 0"
         sample_thread "''0_0''" "threads (sample_tree False ! 0) ! 0"] cf th m
  show ?thesis by simp
qed

text \<open>
  Claim C7, as the specification words it, fails: the code tests the raw message
  against \<open>undefined\<close> only, so a raw flow (or thread) whose message is empty, though
  not \<open>undefined\<close>, is parsed and gets the empty string as its message.
\<close>

theorem empty_message_counterexample:
  "createCodeFlow sample_externals \<lparr> scf_message = Some [], threadFlows = [] \<rparr> ''0'' =
     Inr \<lparr> cf_message = Some [], threads = [] \<rparr> \<and>
   createThreadFlow sample_externals \<lparr> stf_id = None, stf_message = Some [], locations = [] \<rparr> ''0_0'' =
     Inr \<lparr> tf_id = None, tf_message = Some [], steps = [] \<rparr>"
  by (simp add: createCodeFlow_def createThreadFlow_def sample_externals_def
        createCodeFlow_loop.simps createThreadFlow_loop.simps)

text \<open>When the parser returns \<open>undefined\<close> for the message object of a flow or of a
  thread, reading \<open>text\<close> throws.\<close>

lemma message_parser_undefined:
  "scf_message sarifCF = Some m \<Longrightarrow> parseSarifMessage ext (Some m) = None \<Longrightarrow>
     createCodeFlow ext sarifCF tid = Inl TypeError"
  "stf_message sarifTF = Some m' \<Longrightarrow> parseSarifMessage ext (Some m') = None \<Longrightarrow>
     createThreadFlow ext sarifTF tid' = Inl TypeError"
  by (simp_all add: createCodeFlow_def createThreadFlow_def)

subsection \<open>Traversal ids\<close>

lemma digit_char_cases:
  assumes "d < 10"
  shows "of_char (digit_char d) = (48 + d :: nat) \<and> digit_char d \<noteq> CHR ''_''"
proof -
  from assms have "d = 0 \<or> d = 1 \<or> d = 2 \<or> d = 3 \<or> d = 4 \<or> d = 5 \<or> d = 6 \<or> d = 7 \<or> d = 8 \<or> d = 9"
    by arith
  then show ?thesis by (elim disjE) (simp_all add: digit_char_def)
qed

lemma decimal_value_snoc: "decimal_value (s @ [c]) = 10 * decimal_value s + (of_char c - 48)"
  by (simp add: decimal_value_def)

lemma decimal_value_js_nat_to_string: "decimal_value (js_nat_to_string n) = n"
proof (induction n rule: js_nat_to_string.induct)
  case (1 n)
  show ?case
  proof (cases "n < 10")
    case True
    then show ?thesis
      by (subst js_nat_to_string.simps) (simp add: decimal_value_def digit_char_cases)
  next
    case False
    have "n mod 10 < 10" by simp
    then have d: "of_char (digit_char (n mod 10)) = (48 + n mod 10 :: nat)"
      using digit_char_cases by blast
    have "decimal_value (js_nat_to_string n) =
            decimal_value (js_nat_to_string (n div 10) @ [digit_char (n mod 10)])"
      using False by (subst js_nat_to_string.simps) simp
    also have "\<dots> = 10 * (n div 10) + n mod 10"
      using "1.IH"[OF False] by (simp add: decimal_value_snoc d)
    also have "\<dots> = n" by simp
    finally show ?thesis .
  qed
qed

lemma js_nat_to_string_inj:
  assumes "js_nat_to_string a = js_nat_to_string b"
  shows "a = b"
proof -
  have "a = decimal_value (js_nat_to_string a)"
    by (simp only: decimal_value_js_nat_to_string)
  also have "\<dots> = decimal_value (js_nat_to_string b)"
    by (simp only: assms)
  also have "\<dots> = b"
    by (simp only: decimal_value_js_nat_to_string)
  finally show ?thesis .
qed

lemma js_nat_to_string_no_underscore: "CHR ''_'' \<notin> set (js_nat_to_string n)"
proof (induction n rule: js_nat_to_string.induct)
  case (1 n)
  show ?case
  proof (cases "n < 10")
    case True
    then show ?thesis
      using digit_char_cases[of n] by (subst js_nat_to_string.simps) auto
  next
    case False
    have "n mod 10 < 10" by simp
    then have "digit_char (n mod 10) \<noteq> CHR ''_''" using digit_char_cases by blast
    with "1.IH"[OF False] False show ?thesis
      by (subst js_nat_to_string.simps) auto
  qed
qed

lemma split_at_separator:
  assumes "a @ c # b = a' @ c # b'" and "c \<notin> set a" and "c \<notin> set a'"
  shows "a = a' \<and> b = b'"
  using assms
proof (induction a arbitrary: a')
  case Nil
  then show ?case by (cases a') auto
next
  case (Cons x a)
  then show ?case by (cases a') auto
qed

lemma traversal_path_inj:
  assumes "js_nat_to_string i @ ''_'' @ js_nat_to_string j @ ''_'' @ js_nat_to_string k =
           js_nat_to_string i' @ ''_'' @ js_nat_to_string j' @ ''_'' @ js_nat_to_string k'"
  shows "i = i' \<and> j = j' \<and> k = k'"
proof -
  from assms have
    "js_nat_to_string i @ CHR ''_'' # (js_nat_to_string j @ CHR ''_'' # js_nat_to_string k) =
     js_nat_to_string i' @ CHR ''_'' # (js_nat_to_string j' @ CHR ''_'' # js_nat_to_string k')"
    by simp
  from split_at_separator[OF this js_nat_to_string_no_underscore js_nat_to_string_no_underscore]
  have i: "js_nat_to_string i = js_nat_to_string i'"
    and r: "js_nat_to_string j @ CHR ''_'' # js_nat_to_string k =
            js_nat_to_string j' @ CHR ''_'' # js_nat_to_string k'"
    by simp_all
  from split_at_separator[OF r js_nat_to_string_no_underscore js_nat_to_string_no_underscore]
  have "js_nat_to_string j = js_nat_to_string j'" "js_nat_to_string k = js_nat_to_string k'"
    by simp_all
  with i show ?thesis by (simp add: js_nat_to_string_inj)
qed

text \<open>
  Claim C8. In the tree \<open>create\<close> returns, the traversal id of the step at flow index
  \<open>i\<close>, thread index \<open>j\<close> and step index \<open>k\<close> is the three indices in decimal, joined
  by underscores; two steps with the same traversal id are the same step.
\<close>

theorem create_traversalIds:
  assumes "create ext sarifCodeFlows = Inr (Some codeFlows)"
  shows "(\<forall>i j k. i < length codeFlows \<and> j < length (threads (codeFlows ! i)) \<and>
                 k < length (steps (threads (codeFlows ! i) ! j)) \<longrightarrow>
            traversalId (steps (threads (codeFlows ! i) ! j) ! k) =
              js_nat_to_string i @ ''_'' @ js_nat_to_string j @ ''_'' @ js_nat_to_string k) \<and>
         (\<forall>i j k i' j' k'.
            i < length codeFlows \<and> j < length (threads (codeFlows ! i)) \<and>
            k < length (steps (threads (codeFlows ! i) ! j)) \<and>
            i' < length codeFlows \<and> j' < length (threads (codeFlows ! i')) \<and>
            k' < length (steps (threads (codeFlows ! i') ! j')) \<and>
            traversalId (steps (threads (codeFlows ! i) ! j) ! k) =
              traversalId (steps (threads (codeFlows ! i') ! j') ! k') \<longrightarrow>
            i = i' \<and> j = j' \<and> k = k')"
proof -
  from create_Inr_Some[OF assms] obtain scfs where s: "sarifCodeFlows = Some scfs" by blast
  note shape = create_tree[OF assms[unfolded s]]
  have ids: "traversalId (steps (threads (codeFlows ! i) ! j) ! k) =
              js_nat_to_string i @ ''_'' @ js_nat_to_string j @ ''_'' @ js_nat_to_string k"
    if "i < length codeFlows" "j < length (threads (codeFlows ! i))"
       "k < length (steps (threads (codeFlows ! i) ! j))" for i j k
  proof -
    from shape that have
      "createCodeFlowStep ext (locations (threadFlows (scfs ! i) ! j) ! k)
                 (js_nth (locations (threadFlows (scfs ! i) ! j)) (k + 1))
                 (js_nat_to_string i @ ''_'' @ js_nat_to_string j @ ''_'' @ js_nat_to_string k) =
               Inr (steps (threads (codeFlows ! i) ! j) ! k)"
      by simp
    from createCodeFlowStep_fields(5)[OF this] show ?thesis .
  qed
  have "i = i' \<and> j = j' \<and> k = k'"
    if "i < length codeFlows" "j < length (threads (codeFlows ! i))"
       "k < length (steps (threads (codeFlows ! i) ! j))"
       "i' < length codeFlows" "j' < length (threads (codeFlows ! i'))"
       "k' < length (steps (threads (codeFlows ! i') ! j'))"
       "traversalId (steps (threads (codeFlows ! i) ! j) ! k) =
              traversalId (steps (threads (codeFlows ! i') ! j') ! k')" for i j k i' j' k'
    using that(7) unfolding ids[OF that(1,2,3)] ids[OF that(4,5,6)]
    by (rule traversal_path_inj)
  with ids show ?thesis by blast
qed

theorem create_traversalIds_witness:
  "create sample_externals (Some sample_flows) = Inr (Some (sample_tree False)) \<and>
   traversalId (steps (threads (sample_tree False ! 0) ! 0) ! 2) = ''0_0_2''"
proof -
  have v: "0 < length (sample_tree False) \<and> 0 < length (threads (sample_tree False ! 0)) \<and>
           2 < length (steps (threads (sample_tree False ! 0) ! 0))"
    by (simp add: sample_tree_def)
  from create_traversalIds[OF create_sample] v
  have "traversalId (steps (threads (sample_tree False ! 0) ! 0) ! 2) =
          js_nat_to_string 0 @ ''_'' @ js_nat_to_string 0 @ ''_'' @ js_nat_to_string 2"
    by blast
  with create_sample show ?thesis by (simp add: js_nat_to_string_digits)
qed

subsection \<open>Failures of the resolver\<close>

lemma parse_message_ok:
  assumes "\<forall>m. msg = Some m \<longrightarrow> parseSarifMessage ext (Some m) \<noteq> None"
  shows "\<exists>t. (case msg of
            None \<Rightarrow> Inr None
          | Some m \<Rightarrow>
              (case parseSarifMessage ext (Some m) of
                 None \<Rightarrow> Inl TypeError
               | Some p \<Rightarrow> Inr (Some (msg_text p)))) = (Inr t :: error + string option)"
  using assms by (cases msg) auto

lemma createThreadFlow_first_failure:
  assumes msg: "\<forall>m. stf_message sarifTF = Some m \<longrightarrow> parseSarifMessage ext (Some m) \<noteq> None"
    and k: "k < length (locations sarifTF)"
    and fail: "Location_create ext (physicalLocation (cfl_location (locations sarifTF ! k))) = Inl err"
    and before: "\<forall>k'<k. \<exists>l. Location_create ext (physicalLocation (cfl_location (locations sarifTF ! k'))) = Inr l"
  shows "createThreadFlow ext sarifTF tid = Inl err"
proof -
  let ?body = "\<lambda>n. createCodeFlowStep ext (locations sarifTF ! n)
         (js_nth (locations sarifTF) (n + 1)) (tid @ ''_'' @ js_nat_to_string n)"
  have "?body k = Inl err" using fail by (simp add: createCodeFlowStep_Inl_iff)
  moreover have "\<forall>m. 0 \<le> m \<and> m < k \<longrightarrow> (\<exists>y. ?body m = Inr y)"
    using before createCodeFlowStep_total by blast
  ultimately have "collect (map ?body [0..<length (locations sarifTF)]) = Inl err"
    unfolding collect_map_upt_Inl using k by blast
  then have "createThreadFlow_loop ext (locations sarifTF) tid 0 [] = Inl err"
    by (simp add: createThreadFlow_loop_collect)
  moreover from parse_message_ok[OF msg] obtain t where
    "(case stf_message sarifTF of
            None \<Rightarrow> Inr None
          | Some m \<Rightarrow>
              (case parseSarifMessage ext (Some m) of
                 None \<Rightarrow> Inl TypeError
               | Some p \<Rightarrow> Inr (Some (msg_text p)))) = (Inr t :: error + string option)" by blast
  ultimately show ?thesis by (simp add: createThreadFlow_def)
qed

lemma createThreadFlow_total:
  assumes msg: "\<forall>m. stf_message sarifTF = Some m \<longrightarrow> parseSarifMessage ext (Some m) \<noteq> None"
    and ok: "\<forall>k<length (locations sarifTF).
               \<exists>l. Location_create ext (physicalLocation (cfl_location (locations sarifTF ! k))) = Inr l"
  shows "\<exists>th. createThreadFlow ext sarifTF tid = Inr th"
proof -
  let ?body = "\<lambda>n. createCodeFlowStep ext (locations sarifTF ! n)
         (js_nth (locations sarifTF) (n + 1)) (tid @ ''_'' @ js_nat_to_string n)"
  have "\<exists>sts. collect (map ?body [0..<length (locations sarifTF)]) = Inr sts"
  proof (cases "collect (map ?body [0..<length (locations sarifTF)])")
    case (Inl err)
    then obtain k where "k < length (locations sarifTF)" "?body k = Inl err"
      unfolding collect_map_upt_Inl by blast
    with ok show ?thesis by (auto simp: createCodeFlowStep_Inl_iff)
  next
    case (Inr sts)
    then show ?thesis by blast
  qed
  then obtain sts where "createThreadFlow_loop ext (locations sarifTF) tid 0 [] = Inr sts"
    by (auto simp: createThreadFlow_loop_collect)
  moreover from parse_message_ok[OF msg] obtain t where
    "(case stf_message sarifTF of
            None \<Rightarrow> Inr None
          | Some m \<Rightarrow>
              (case parseSarifMessage ext (Some m) of
                 None \<Rightarrow> Inl TypeError
               | Some p \<Rightarrow> Inr (Some (msg_text p)))) = (Inr t :: error + string option)" by blast
  ultimately show ?thesis by (simp add: createThreadFlow_def)
qed

lemma createCodeFlow_first_failure:
  assumes msg: "\<forall>m. scf_message sarifCF = Some m \<longrightarrow> parseSarifMessage ext (Some m) \<noteq> None"
    and j: "j < length (threadFlows sarifCF)"
    and fail: "createThreadFlow ext (threadFlows sarifCF ! j) (tid @ ''_'' @ js_nat_to_string j) = Inl err"
    and before: "\<forall>j'<j. \<exists>th. createThreadFlow ext (threadFlows sarifCF ! j') (tid @ ''_'' @ js_nat_to_string j') = Inr th"
  shows "createCodeFlow ext sarifCF tid = Inl err"
proof -
  let ?body = "\<lambda>n. createThreadFlow ext (threadFlows sarifCF ! n) (tid @ ''_'' @ js_nat_to_string n)"
  have "collect (map ?body [0..<length (threadFlows sarifCF)]) = Inl err"
    unfolding collect_map_upt_Inl using j fail before by blast
  then have "createCodeFlow_loop ext (threadFlows sarifCF) tid 0 [] = Inl err"
    by (simp add: createCodeFlow_loop_collect)
  moreover from parse_message_ok[OF msg] obtain t where
    "(case scf_message sarifCF of
            None \<Rightarrow> Inr None
          | Some m \<Rightarrow>
              (case parseSarifMessage ext (Some m) of
                 None \<Rightarrow> Inl TypeError
               | Some p \<Rightarrow> Inr (Some (msg_text p)))) = (Inr t :: error + string option)" by blast
  ultimately show ?thesis by (simp add: createCodeFlow_def)
qed

lemma createCodeFlow_total:
  assumes msg: "\<forall>m. scf_message sarifCF = Some m \<longrightarrow> parseSarifMessage ext (Some m) \<noteq> None"
    and ok: "\<forall>j<length (threadFlows sarifCF).
               \<exists>th. createThreadFlow ext (threadFlows sarifCF ! j) (tid @ ''_'' @ js_nat_to_string j) = Inr th"
  shows "\<exists>cf. createCodeFlow ext sarifCF tid = Inr cf"
proof -
  let ?body = "\<lambda>n. createThreadFlow ext (threadFlows sarifCF ! n) (tid @ ''_'' @ js_nat_to_string n)"
  have "\<exists>ths. collect (map ?body [0..<length (threadFlows sarifCF)]) = Inr ths"
  proof (cases "collect (map ?body [0..<length (threadFlows sarifCF)])")
    case (Inl err)
    then obtain j where "j < length (threadFlows sarifCF)" "?body j = Inl err"
      unfolding collect_map_upt_Inl by blast
    with ok show ?thesis by auto
  next
    case (Inr ths)
    then show ?thesis by blast
  qed
  then obtain ths where "createCodeFlow_loop ext (threadFlows sarifCF) tid 0 [] = Inr ths"
    by (auto simp: createCodeFlow_loop_collect)
  moreover from parse_message_ok[OF msg] obtain t where
    "(case scf_message sarifCF of
            None \<Rightarrow> Inr None
          | Some m \<Rightarrow>
              (case parseSarifMessage ext (Some m) of
                 None \<Rightarrow> Inl TypeError
               | Some p \<Rightarrow> Inr (Some (msg_text p)))) = (Inr t :: error + string option)" by blast
  ultimately show ?thesis by (simp add: createCodeFlow_def)
qed

lemma create_first_failure:
  assumes i: "i < length scfs"
    and fail: "createCodeFlow ext (scfs ! i) (js_nat_to_string i) = Inl err"
    and before: "\<forall>i'<i. \<exists>cf. createCodeFlow ext (scfs ! i') (js_nat_to_string i') = Inr cf"
  shows "create ext (Some scfs) = Inl err"
proof -
  let ?body = "\<lambda>n. createCodeFlow ext (scfs ! n) (js_nat_to_string n)"
  have "collect (map ?body [0..<length scfs]) = Inl err"
    unfolding collect_map_upt_Inl using i fail before by blast
  then have "create_loop ext scfs 0 [] = Inl err"
    by (simp add: create_loop_collect)
  moreover have "scfs \<noteq> []" using i by auto
  ultimately show ?thesis by (simp add: create_def)
qed

text \<open>
  Claim C6. When the resolver rejects the location of some step of the input, \<open>create\<close>
  fails: it never returns a tree, partial or not. The failure it ends with is the first
  one in traversal order. So the call fails with the resolver's rejection of this step
  when nothing fails before it: the resolver accepts every step before this one, and
  the parser returns a message for the message objects read before it, which are those
  of the flows up to this one and of the threads up to this one.
\<close>

theorem create_all_or_nothing:
  assumes i: "i < length scfs"
    and j: "j < length (threadFlows (scfs ! i))"
    and k: "k < length (locations (threadFlows (scfs ! i) ! j))"
    and fail: "Location_create ext
                 (physicalLocation (cfl_location (locations (threadFlows (scfs ! i) ! j) ! k))) = Inl err"
  shows "(\<exists>err'. create ext (Some scfs) = Inl err') \<and>
         ((\<forall>i' m. i' \<le> i \<and> scf_message (scfs ! i') = Some m \<longrightarrow>
             parseSarifMessage ext (Some m) \<noteq> None) \<and>
          (\<forall>i' j' m.
             i' < length scfs \<and> j' < length (threadFlows (scfs ! i')) \<and>
             (i' < i \<or> i' = i \<and> j' \<le> j) \<and>
             stf_message (threadFlows (scfs ! i') ! j') = Some m \<longrightarrow>
             parseSarifMessage ext (Some m) \<noteq> None) \<and>
          (\<forall>i' j' k'.
             i' < length scfs \<and> j' < length (threadFlows (scfs ! i')) \<and>
             k' < length (locations (threadFlows (scfs ! i') ! j')) \<and>
             (i' < i \<or> i' = i \<and> (j' < j \<or> j' = j \<and> k' < k)) \<longrightarrow>
             (\<exists>l. Location_create ext
                     (physicalLocation (cfl_location (locations (threadFlows (scfs ! i') ! j') ! k'))) = Inr l))
          \<longrightarrow> create ext (Some scfs) = Inl err)"
proof -
  have nonempty: "scfs \<noteq> []" using i by auto
  have 1: "\<exists>err'. create ext (Some scfs) = Inl err'"
  proof (cases "create ext (Some scfs)")
    case (Inl err')
    then show ?thesis by blast
  next
    case (Inr r)
    from create_Some_Inr[OF Inr nonempty] obtain codeFlows where
      r: "r = Some codeFlows" by blast
    from create_tree[OF Inr[unfolded r]] i j k have
      "createCodeFlowStep ext (locations (threadFlows (scfs ! i) ! j) ! k)
                 (js_nth (locations (threadFlows (scfs ! i) ! j)) (k + 1))
                 (js_nat_to_string i @ ''_'' @ js_nat_to_string j @ ''_'' @ js_nat_to_string k) =
               Inr (steps (threads (codeFlows ! i) ! j) ! k)"
      by simp
    from createCodeFlowStep_fields(1)[OF this] fail show ?thesis by simp
  qed
  have 2: "create ext (Some scfs) = Inl err"
    if flow_parse: "\<forall>i' m. i' \<le> i \<and> scf_message (scfs ! i') = Some m \<longrightarrow>
             parseSarifMessage ext (Some m) \<noteq> None"
    and thread_parse: "\<forall>i' j' m.
             i' < length scfs \<and> j' < length (threadFlows (scfs ! i')) \<and>
             (i' < i \<or> i' = i \<and> j' \<le> j) \<and>
             stf_message (threadFlows (scfs ! i') ! j') = Some m \<longrightarrow>
             parseSarifMessage ext (Some m) \<noteq> None"
    and before: "\<forall>i' j' k'.
             i' < length scfs \<and> j' < length (threadFlows (scfs ! i')) \<and>
             k' < length (locations (threadFlows (scfs ! i') ! j')) \<and>
             (i' < i \<or> i' = i \<and> (j' < j \<or> j' = j \<and> k' < k)) \<longrightarrow>
             (\<exists>l. Location_create ext
                     (physicalLocation (cfl_location (locations (threadFlows (scfs ! i') ! j') ! k'))) = Inr l)"
  proof -
    have thread_ok: "\<exists>th. createThreadFlow ext (threadFlows (scfs ! i') ! j') tid = Inr th"
      if "i' < length scfs" "j' < length (threadFlows (scfs ! i'))" "i' < i \<or> i' = i \<and> j' < j"
      for i' j' tid
    proof (rule createThreadFlow_total)
      from that have "i' < i \<or> i' = i \<and> j' \<le> j" by auto
      with thread_parse that(1,2)
      show "\<forall>m. stf_message (threadFlows (scfs ! i') ! j') = Some m \<longrightarrow>
                parseSarifMessage ext (Some m) \<noteq> None" by blast
      show "\<forall>k<length (locations (threadFlows (scfs ! i') ! j')).
              \<exists>l. Location_create ext
                (physicalLocation (cfl_location (locations (threadFlows (scfs ! i') ! j') ! k))) = Inr l"
        using before that by blast
    qed
    have flow_ok: "\<exists>cf. createCodeFlow ext (scfs ! i') tid = Inr cf"
      if "i' < length scfs" "i' < i" for i' tid
    proof (rule createCodeFlow_total)
      from that(2) have "i' \<le> i" by simp
      with flow_parse
      show "\<forall>m. scf_message (scfs ! i') = Some m \<longrightarrow> parseSarifMessage ext (Some m) \<noteq> None"
        by blast
      show "\<forall>j<length (threadFlows (scfs ! i')).
              \<exists>th. createThreadFlow ext (threadFlows (scfs ! i') ! j)
                     (tid @ ''_'' @ js_nat_to_string j) = Inr th"
        using thread_ok that by blast
    qed
    have thread_fails: "createThreadFlow ext (threadFlows (scfs ! i) ! j)
            (js_nat_to_string i @ ''_'' @ js_nat_to_string j) = Inl err"
    proof (rule createThreadFlow_first_failure[OF _ k fail])
      from thread_parse i j
      show "\<forall>m. stf_message (threadFlows (scfs ! i) ! j) = Some m \<longrightarrow>
                parseSarifMessage ext (Some m) \<noteq> None" by blast
      show "\<forall>k'<k. \<exists>l. Location_create ext
              (physicalLocation (cfl_location (locations (threadFlows (scfs ! i) ! j) ! k'))) = Inr l"
      proof (intro allI impI)
        fix k' assume k': "k' < k"
        then have "k' < length (locations (threadFlows (scfs ! i) ! j))" using k by simp
        with before[rule_format, of i j k'] i j k' show "\<exists>l. Location_create ext
              (physicalLocation (cfl_location (locations (threadFlows (scfs ! i) ! j) ! k'))) = Inr l"
          by simp
      qed
    qed
    have "createCodeFlow ext (scfs ! i) (js_nat_to_string i) = Inl err"
    proof (rule createCodeFlow_first_failure[OF _ j thread_fails])
      from flow_parse
      show "\<forall>m. scf_message (scfs ! i) = Some m \<longrightarrow> parseSarifMessage ext (Some m) \<noteq> None"
        by blast
      show "\<forall>j'<j. \<exists>th. createThreadFlow ext (threadFlows (scfs ! i) ! j')
                           (js_nat_to_string i @ ''_'' @ js_nat_to_string j') = Inr th"
      proof (intro allI impI)
        fix j' assume j': "j' < j"
        then have "j' < length (threadFlows (scfs ! i))" using j by simp
        with thread_ok[of i j'] i j' show "\<exists>th. createThreadFlow ext (threadFlows (scfs ! i) ! j')
                           (js_nat_to_string i @ ''_'' @ js_nat_to_string j') = Inr th"
          by simp
      qed
    qed
    then show ?thesis
    proof (rule create_first_failure[OF i])
      show "\<forall>i'<i. \<exists>cf. createCodeFlow ext (scfs ! i') (js_nat_to_string i') = Inr cf"
      proof (intro allI impI)
        fix i' assume i': "i' < i"
        then have "i' < length scfs" using i by simp
        with flow_ok[of i'] i' show "\<exists>cf. createCodeFlow ext (scfs ! i') (js_nat_to_string i') = Inr cf"
          by simp
      qed
    qed
  qed
  from 1 2 show ?thesis by blast
qed

text \<open>A raw array whose second flow has a message the parser below does not accept; the
  resolver rejects the second step of the first flow.\<close>

theorem create_all_or_nothing_witness:
  "(0::nat) < length sample_failing_flows \<and>
   0 < length (threadFlows (sample_failing_flows ! 0)) \<and>
   1 < length (locations (threadFlows (sample_failing_flows ! 0) ! 0)) \<and>
   Location_create sample_partial_externals
     (physicalLocation (cfl_location (locations (threadFlows (sample_failing_flows ! 0) ! 0) ! 1))) =
     Inl (Rejected ''no file'') \<and>
   parseSarifMessage sample_partial_externals (scf_message (sample_failing_flows ! 1)) = None \<and>
   create sample_partial_externals (Some sample_failing_flows) = Inl (Rejected ''no file'')"
proof -
  have i: "(0::nat) < length sample_failing_flows"
    and j: "0 < length (threadFlows (sample_failing_flows ! 0))"
    and k: "1 < length (locations (threadFlows (sample_failing_flows ! 0) ! 0))"
    and fail: "Location_create sample_partial_externals
       (physicalLocation (cfl_location (locations (threadFlows (sample_failing_flows ! 0) ! 0) ! 1))) =
       Inl (Rejected ''no file'')"
    and later: "parseSarifMessage sample_partial_externals (scf_message (sample_failing_flows ! 1)) = None"
    by (simp_all add: sample_failing_flows_def sample_location_def sample_externals_def
          sample_partial_externals_def)
  have flow_parse: "\<forall>i' m. i' \<le> 0 \<and> scf_message (sample_failing_flows ! i') = Some m \<longrightarrow>
       parseSarifMessage sample_partial_externals (Some m) \<noteq> None"
    by (simp add: sample_failing_flows_def)
  have thread_parse: "\<forall>i' j' m.
       i' < length sample_failing_flows \<and> j' < length (threadFlows (sample_failing_flows ! i')) \<and>
       (i' < 0 \<or> i' = 0 \<and> j' \<le> 0) \<and>
       stf_message (threadFlows (sample_failing_flows ! i') ! j') = Some m \<longrightarrow>
       parseSarifMessage sample_partial_externals (Some m) \<noteq> None"
    by (simp add: sample_failing_flows_def)
  have before: "\<forall>i' j' k'.
       i' < length sample_failing_flows \<and> j' < length (threadFlows (sample_failing_flows ! i')) \<and>
       k' < length (locations (threadFlows (sample_failing_flows ! i') ! j')) \<and>
       (i' < 0 \<or> i' = 0 \<and> (j' < 0 \<or> j' = 0 \<and> k' < 1)) \<longrightarrow>
       (\<exists>l. Location_create sample_partial_externals
               (physicalLocation (cfl_location
                  (locations (threadFlows (sample_failing_flows ! i') ! j') ! k'))) = Inr l)"
    by (simp add: sample_failing_flows_def sample_location_def sample_externals_def
          sample_partial_externals_def)
  from create_all_or_nothing[OF i j k fail] flow_parse thread_parse before
  have "create sample_partial_externals (Some sample_failing_flows) = Inl (Rejected ''no file'')"
    by blast
  with i j k fail later show ?thesis by blast
qed

subsection \<open>The remapping pass as a pass over lists\<close>

lemma patch_length: "length (snd (patch f k xs)) = length xs"
proof (induction xs arbitrary: k)
  case Nil
  then show ?case by simp
next
  case (Cons x xs)
  obtain r y where fx: "f k x = (r, y)" by (cases "f k x")
  obtain r' ys where p: "patch f (Suc k) xs = (r', ys)" by (cases "patch f (Suc k) xs")
  with Cons.IH[of "Suc k"] have "length ys = length xs" by simp
  with fx p show ?case by (cases r) simp_all
qed

lemma patch_nth_cases:
  "n < length xs \<Longrightarrow>
     snd (patch f k xs) ! n = xs ! n \<or> snd (patch f k xs) ! n = snd (f (k + n) (xs ! n))"
proof (induction xs arbitrary: k n)
  case Nil
  then show ?case by simp
next
  case (Cons x xs)
  obtain r y where fx: "f k x = (r, y)" by (cases "f k x")
  show ?case
  proof (cases n)
    case 0
    then show ?thesis using fx by (cases r) (auto split: prod.splits)
  next
    case (Suc m)
    with Cons.prems have m: "m < length xs" by simp
    show ?thesis
    proof (cases r)
      case None
      with fx Suc Cons.IH[OF m, of "Suc k"] show ?thesis by (auto split: prod.splits)
    next
      case (Some err)
      with fx Suc show ?thesis by simp
    qed
  qed
qed

lemma patch_None_nth:
  "fst (patch f k xs) = None \<Longrightarrow> n < length xs \<Longrightarrow>
     f (k + n) (xs ! n) = (None, snd (patch f k xs) ! n)"
proof (induction xs arbitrary: k n)
  case Nil
  then show ?case by simp
next
  case (Cons x xs)
  obtain r y where fx: "f k x = (r, y)" by (cases "f k x")
  from Cons.prems(1) fx have r: "r = None" by (cases r) auto
  with Cons.prems(1) fx have rest: "fst (patch f (Suc k) xs) = None"
    by (auto split: prod.splits)
  show ?case
  proof (cases n)
    case 0
    then show ?thesis using fx r by (auto split: prod.splits)
  next
    case (Suc m)
    with Cons.prems have m: "m < length xs" by simp
    from Cons.IH[OF rest m] fx r Suc show ?thesis by (auto split: prod.splits)
  qed
qed

lemma patch_total:
  "(\<And>n. n < length xs \<Longrightarrow> fst (f (k + n) (xs ! n)) = None) \<Longrightarrow> fst (patch f k xs) = None"
proof (induction xs arbitrary: k)
  case Nil
  then show ?case by simp
next
  case (Cons x xs)
  from Cons.prems[of 0] have fx: "fst (f k x) = None" by simp
  have "fst (patch f (Suc k) xs) = None"
  proof (rule Cons.IH)
    fix n assume "n < length xs"
    with Cons.prems[of "Suc n"] show "fst (f (Suc k + n) (xs ! n)) = None" by simp
  qed
  with fx show ?case by (cases "f k x") (auto split: prod.splits)
qed

lemma patch_idem:
  assumes "\<And>n x. f n (snd (f n x)) = f n x"
  shows "patch f k (snd (patch f k xs)) = patch f k xs"
proof (induction xs arbitrary: k)
  case Nil
  then show ?case by simp
next
  case (Cons x xs)
  obtain r y where fx: "f k x = (r, y)" by (cases "f k x")
  with assms[of k x] have fy: "f k y = (r, y)" by simp
  show ?case
  proof (cases r)
    case None
    obtain r' ys where p: "patch f (Suc k) xs = (r', ys)" by (cases "patch f (Suc k) xs")
    with Cons.IH[of "Suc k"] have "patch f (Suc k) ys = (r', ys)" by simp
    with fx fy None p show ?thesis by simp
  next
    case (Some err)
    with fx fy show ?thesis by simp
  qed
qed

lemma patch_frame:
  assumes "\<And>n x. g (snd (f n x)) = g x"
  shows "map g (snd (patch f k xs)) = map g xs"
proof (induction xs arbitrary: k)
  case Nil
  then show ?case by simp
next
  case (Cons x xs)
  obtain r y where fx: "f k x = (r, y)" by (cases "f k x")
  with assms[of k x] have gy: "g y = g x" by simp
  show ?case
  proof (cases r)
    case None
    with fx gy Cons.IH[of "Suc k"] show ?thesis by (auto split: prod.splits)
  next
    case (Some err)
    with fx gy show ?thesis by simp
  qed
qed

lemma tryRemapCodeFlows_steps_patch:
  "stepKey \<le> length sts \<Longrightarrow>
   tryRemapCodeFlows_steps ext scfs cFKey tFKey stepKey sts =
     (fst (patch (remap_step ext scfs cFKey tFKey) stepKey (drop stepKey sts)),
      take stepKey sts @ snd (patch (remap_step ext scfs cFKey tFKey) stepKey (drop stepKey sts)))"
proof (induction ext scfs cFKey tFKey stepKey sts rule: tryRemapCodeFlows_steps.induct)
  case (1 ext scfs cFKey tFKey stepKey sts)
  let ?f = "remap_step ext scfs cFKey tFKey"
  show ?case
  proof (cases "stepKey < length sts")
    case False
    with "1.prems" show ?thesis by (subst tryRemapCodeFlows_steps.simps) simp
  next
    case True
    then have dr: "drop stepKey sts = sts ! stepKey # drop (Suc stepKey) sts"
      by (simp add: Cons_nth_drop_Suc)
    obtain r y where f: "?f stepKey (sts ! stepKey) = (r, y)"
      by (cases "?f stepKey (sts ! stepKey)")
    show ?thesis
    proof (cases "case location (sts ! stepKey) of None \<Rightarrow> False | Some l \<Rightarrow> \<not> mapped l")
      case False
      with f have ry: "r = None" "y = sts ! stepKey" by (simp_all add: remap_step_def)
      have "tryRemapCodeFlows_steps ext scfs cFKey tFKey stepKey sts =
            tryRemapCodeFlows_steps ext scfs cFKey tFKey (Suc stepKey) sts"
        using True False by (subst tryRemapCodeFlows_steps.simps) (simp add: Let_def)
      also have "\<dots> = (fst (patch ?f (Suc stepKey) (drop (Suc stepKey) sts)),
                        take (Suc stepKey) sts @ snd (patch ?f (Suc stepKey) (drop (Suc stepKey) sts)))"
        using "1.IH"(2)[OF True refl False] True by simp
      also have "\<dots> = (fst (patch ?f stepKey (drop stepKey sts)),
                        take stepKey sts @ snd (patch ?f stepKey (drop stepKey sts)))"
        using True f ry by (simp add: dr take_Suc_conv_app_nth split: prod.splits)
      finally show ?thesis .
    next
      case needs: True
      show ?thesis
      proof (cases r)
        case (Some err)
        with f needs have y: "y = sts ! stepKey"
          by (auto simp: remap_step_def split: option.splits sum.splits)
        have "tryRemapCodeFlows_steps ext scfs cFKey tFKey stepKey sts = (Some err, sts)"
          using True needs f Some
          by (subst tryRemapCodeFlows_steps.simps)
             (auto simp: remap_step_def Let_def split: option.splits sum.splits)
        also have "\<dots> = (fst (patch ?f stepKey (drop stepKey sts)),
                        take stepKey sts @ snd (patch ?f stepKey (drop stepKey sts)))"
          using f Some y True by (simp add: dr id_take_nth_drop[symmetric])
        finally show ?thesis .
      next
        case None
        with f needs obtain scf stf scfl loc where
          look: "js_nth scfs cFKey = Some scf" "js_nth (threadFlows scf) tFKey = Some stf"
                "js_nth (locations stf) stepKey = Some scfl"
                "Location_create ext (physicalLocation (cfl_location scfl)) = Inr loc"
          and y: "y = (sts ! stepKey)\<lparr>location := loc\<rparr>"
          by (auto simp: remap_step_def split: option.splits sum.splits)
        let ?sts' = "sts[stepKey := (sts ! stepKey)\<lparr>location := loc\<rparr>]"
        have "tryRemapCodeFlows_steps ext scfs cFKey tFKey stepKey sts =
              tryRemapCodeFlows_steps ext scfs cFKey tFKey (Suc stepKey) ?sts'"
          using True needs look by (subst tryRemapCodeFlows_steps.simps) (simp add: Let_def)
        also have "\<dots> = (fst (patch ?f (Suc stepKey) (drop (Suc stepKey) ?sts')),
                        take (Suc stepKey) ?sts' @ snd (patch ?f (Suc stepKey) (drop (Suc stepKey) ?sts')))"
          using "1.IH"(1)[OF True refl needs look(1) look(2) look(3) look(4)] True by simp
        also have "\<dots> = (fst (patch ?f stepKey (drop stepKey sts)),
                        take stepKey sts @ snd (patch ?f stepKey (drop stepKey sts)))"
          using True f None y
          by (simp add: dr take_Suc_conv_app_nth split: prod.splits)
        finally show ?thesis .
      qed
    qed
  qed
qed

lemma tryRemapCodeFlows_threads_patch:
  "tFKey \<le> length ths \<Longrightarrow>
   tryRemapCodeFlows_threads ext scfs cFKey tFKey ths =
     (fst (patch (remap_thread ext scfs cFKey) tFKey (drop tFKey ths)),
      take tFKey ths @ snd (patch (remap_thread ext scfs cFKey) tFKey (drop tFKey ths)))"
proof (induction ext scfs cFKey tFKey ths rule: tryRemapCodeFlows_threads.induct)
  case (1 ext scfs cFKey tFKey ths)
  let ?f = "remap_thread ext scfs cFKey"
  show ?case
  proof (cases "tFKey < length ths")
    case False
    with "1.prems" show ?thesis by (subst tryRemapCodeFlows_threads.simps) simp
  next
    case True
    then have dr: "drop tFKey ths = ths ! tFKey # drop (Suc tFKey) ths"
      by (simp add: Cons_nth_drop_Suc)
    obtain r sts where p: "tryRemapCodeFlows_steps ext scfs cFKey tFKey 0 (steps (ths ! tFKey)) = (r, sts)"
      by (cases "tryRemapCodeFlows_steps ext scfs cFKey tFKey 0 (steps (ths ! tFKey))")
    let ?y = "(ths ! tFKey)\<lparr>steps := sts\<rparr>"
    let ?ths' = "ths[tFKey := ?y]"
    have f: "?f tFKey (ths ! tFKey) = (r, ?y)" by (simp add: remap_thread_def p)
    show ?thesis
    proof (cases r)
      case (Some err)
      have "tryRemapCodeFlows_threads ext scfs cFKey tFKey ths = (Some err, ?ths')"
        using True p Some by (subst tryRemapCodeFlows_threads.simps) (simp add: Let_def)
      also have "\<dots> = (fst (patch ?f tFKey (drop tFKey ths)),
                        take tFKey ths @ snd (patch ?f tFKey (drop tFKey ths)))"
        using f Some True by (simp add: dr upd_conv_take_nth_drop)
      finally show ?thesis .
    next
      case None
      have "tryRemapCodeFlows_threads ext scfs cFKey tFKey ths =
            tryRemapCodeFlows_threads ext scfs cFKey (Suc tFKey) ?ths'"
        using True p None by (subst tryRemapCodeFlows_threads.simps) (simp add: Let_def)
      also have "\<dots> = (fst (patch ?f (Suc tFKey) (drop (Suc tFKey) ?ths')),
                        take (Suc tFKey) ?ths' @ snd (patch ?f (Suc tFKey) (drop (Suc tFKey) ?ths')))"
        using "1.IH"[OF True refl refl p[symmetric] refl None] True by simp
      also have "\<dots> = (fst (patch ?f tFKey (drop tFKey ths)),
                        take tFKey ths @ snd (patch ?f tFKey (drop tFKey ths)))"
        using True f None by (simp add: dr take_Suc_conv_app_nth split: prod.splits)
      finally show ?thesis .
    qed
  qed
qed

lemma tryRemapCodeFlows_flows_patch:
  "cFKey \<le> length codeFlows \<Longrightarrow>
   tryRemapCodeFlows_flows ext scfs cFKey codeFlows =
     (fst (patch (remap_flow ext scfs) cFKey (drop cFKey codeFlows)),
      take cFKey codeFlows @ snd (patch (remap_flow ext scfs) cFKey (drop cFKey codeFlows)))"
proof (induction ext scfs cFKey codeFlows rule: tryRemapCodeFlows_flows.induct)
  case (1 ext scfs cFKey codeFlows)
  let ?f = "remap_flow ext scfs"
  show ?case
  proof (cases "cFKey < length codeFlows")
    case False
    with "1.prems" show ?thesis by (subst tryRemapCodeFlows_flows.simps) simp
  next
    case True
    then have dr: "drop cFKey codeFlows = codeFlows ! cFKey # drop (Suc cFKey) codeFlows"
      by (simp add: Cons_nth_drop_Suc)
    obtain r ths where p: "tryRemapCodeFlows_threads ext scfs cFKey 0 (threads (codeFlows ! cFKey)) = (r, ths)"
      by (cases "tryRemapCodeFlows_threads ext scfs cFKey 0 (threads (codeFlows ! cFKey))")
    let ?y = "(codeFlows ! cFKey)\<lparr>threads := ths\<rparr>"
    let ?cfs' = "codeFlows[cFKey := ?y]"
    have f: "?f cFKey (codeFlows ! cFKey) = (r, ?y)" by (simp add: remap_flow_def p)
    show ?thesis
    proof (cases r)
      case (Some err)
      have "tryRemapCodeFlows_flows ext scfs cFKey codeFlows = (Some err, ?cfs')"
        using True p Some by (subst tryRemapCodeFlows_flows.simps) (simp add: Let_def)
      also have "\<dots> = (fst (patch ?f cFKey (drop cFKey codeFlows)),
                        take cFKey codeFlows @ snd (patch ?f cFKey (drop cFKey codeFlows)))"
        using f Some True by (simp add: dr upd_conv_take_nth_drop)
      finally show ?thesis .
    next
      case None
      have "tryRemapCodeFlows_flows ext scfs cFKey codeFlows =
            tryRemapCodeFlows_flows ext scfs (Suc cFKey) ?cfs'"
        using True p None by (subst tryRemapCodeFlows_flows.simps) (simp add: Let_def)
      also have "\<dots> = (fst (patch ?f (Suc cFKey) (drop (Suc cFKey) ?cfs')),
                        take (Suc cFKey) ?cfs' @ snd (patch ?f (Suc cFKey) (drop (Suc cFKey) ?cfs')))"
        using "1.IH"[OF True refl refl p[symmetric] refl None] True by simp
      also have "\<dots> = (fst (patch ?f cFKey (drop cFKey codeFlows)),
                        take cFKey codeFlows @ snd (patch ?f cFKey (drop cFKey codeFlows)))"
        using True f None by (simp add: dr take_Suc_conv_app_nth split: prod.splits)
      finally show ?thesis .
    qed
  qed
qed

lemma tryRemapCodeFlows_steps_0:
  "tryRemapCodeFlows_steps ext scfs cFKey tFKey 0 sts = patch (remap_step ext scfs cFKey tFKey) 0 sts"
  by (simp add: tryRemapCodeFlows_steps_patch)

lemma tryRemapCodeFlows_threads_0:
  "tryRemapCodeFlows_threads ext scfs cFKey 0 ths = patch (remap_thread ext scfs cFKey) 0 ths"
  by (simp add: tryRemapCodeFlows_threads_patch)

lemma tryRemapCodeFlows_patch:
  "tryRemapCodeFlows ext codeFlows scfs = patch (remap_flow ext scfs) 0 codeFlows"
  by (simp add: tryRemapCodeFlows_def tryRemapCodeFlows_flows_patch)

lemma remap_thread_eq:
  "remap_thread ext scfs cFKey tFKey thread =
     (fst (patch (remap_step ext scfs cFKey tFKey) 0 (steps thread)),
      thread\<lparr>steps := snd (patch (remap_step ext scfs cFKey tFKey) 0 (steps thread))\<rparr>)"
  by (simp add: remap_thread_def tryRemapCodeFlows_steps_0 split: prod.splits)

lemma remap_flow_eq:
  "remap_flow ext scfs cFKey codeFlow =
     (fst (patch (remap_thread ext scfs cFKey) 0 (threads codeFlow)),
      codeFlow\<lparr>threads := snd (patch (remap_thread ext scfs cFKey) 0 (threads codeFlow))\<rparr>)"
  by (simp add: remap_flow_def tryRemapCodeFlows_threads_0 split: prod.splits)

subsection \<open>Running the pass twice\<close>

lemma remap_step_idem:
  "remap_step ext scfs cFKey tFKey stepKey (snd (remap_step ext scfs cFKey tFKey stepKey step)) =
   remap_step ext scfs cFKey tFKey stepKey step"
proof (cases "case location step of None \<Rightarrow> False | Some l \<Rightarrow> \<not> mapped l")
  case False
  then have "remap_step ext scfs cFKey tFKey stepKey step = (None, step)"
    by (simp add: remap_step_def)
  then show ?thesis by simp
next
  case needs: True
  show ?thesis
  proof (cases "fst (remap_step ext scfs cFKey tFKey stepKey step)")
    case (Some err)
    with needs have "snd (remap_step ext scfs cFKey tFKey stepKey step) = step"
      by (auto simp: remap_step_def split: option.splits sum.splits)
    then show ?thesis by simp
  next
    case None
    with needs obtain scf stf scfl loc where
      look: "js_nth scfs cFKey = Some scf" "js_nth (threadFlows scf) tFKey = Some stf"
            "js_nth (locations stf) stepKey = Some scfl"
            "Location_create ext (physicalLocation (cfl_location scfl)) = Inr loc"
      by (auto simp: remap_step_def split: option.splits sum.splits)
    with needs have r: "remap_step ext scfs cFKey tFKey stepKey step = (None, step\<lparr>location := loc\<rparr>)"
      by (simp add: remap_step_def)
    have "remap_step ext scfs cFKey tFKey stepKey (step\<lparr>location := loc\<rparr>) =
            (None, step\<lparr>location := loc\<rparr>)"
      using look by (simp add: remap_step_def)
    with r show ?thesis by simp
  qed
qed

lemma remap_thread_idem:
  "remap_thread ext scfs cFKey tFKey (snd (remap_thread ext scfs cFKey tFKey thread)) =
   remap_thread ext scfs cFKey tFKey thread"
  by (simp add: remap_thread_eq patch_idem[where f = "remap_step ext scfs cFKey tFKey", OF remap_step_idem])

lemma remap_flow_idem:
  "remap_flow ext scfs cFKey (snd (remap_flow ext scfs cFKey codeFlow)) =
   remap_flow ext scfs cFKey codeFlow"
  by (simp add: remap_flow_eq patch_idem[where f = "remap_thread ext scfs cFKey", OF remap_thread_idem])

text \<open>
  Claim C9. The resolver of the model is a function, so it is deterministic. Running
  \<open>tryRemapCodeFlows\<close> on the tree a first run has left, with the same raw array, ends
  as the first run did and leaves the tree as the first run left it: the steps that
  became mapped (or \<open>null\<close>) are skipped, the others get the same location again, and a
  run that failed fails again at the same step.
\<close>

theorem tryRemapCodeFlows_idempotent:
  "tryRemapCodeFlows ext (snd (tryRemapCodeFlows ext codeFlows scfs)) scfs =
   tryRemapCodeFlows ext codeFlows scfs"
  unfolding tryRemapCodeFlows_patch
  by (rule patch_idem[OF remap_flow_idem])

subsection \<open>What the pass writes\<close>

lemma remap_step_cases:
  "(case location step of
      None \<Rightarrow> remap_step ext scfs i j k step = (None, step)
    | Some l \<Rightarrow>
        if mapped l then remap_step ext scfs i j k step = (None, step)
        else (\<exists>err. remap_step ext scfs i j k step = (Some err, step)) \<or>
             (\<exists>sarifLoc loc. sarifLoc_at scfs i j k = Some sarifLoc \<and>
                Location_create ext (physicalLocation sarifLoc) = Inr loc \<and>
                remap_step ext scfs i j k step = (None, step\<lparr>location := loc\<rparr>)))"
  by (auto simp: remap_step_def sarifLoc_at_def split: option.splits sum.splits)

lemma remap_thread_steps:
  assumes "k < length (steps thread)"
  shows "steps (snd (remap_thread ext scfs i j thread)) ! k = steps thread ! k \<or>
         steps (snd (remap_thread ext scfs i j thread)) ! k =
           snd (remap_step ext scfs i j k (steps thread ! k))"
    and "fst (remap_thread ext scfs i j thread) = None \<Longrightarrow>
         remap_step ext scfs i j k (steps thread ! k) =
           (None, steps (snd (remap_thread ext scfs i j thread)) ! k)"
proof -
  show "steps (snd (remap_thread ext scfs i j thread)) ! k = steps thread ! k \<or>
         steps (snd (remap_thread ext scfs i j thread)) ! k =
           snd (remap_step ext scfs i j k (steps thread ! k))"
    using patch_nth_cases[OF assms, of "remap_step ext scfs i j" 0]
    by (simp add: remap_thread_eq)
  show "remap_step ext scfs i j k (steps thread ! k) =
           (None, steps (snd (remap_thread ext scfs i j thread)) ! k)"
    if "fst (remap_thread ext scfs i j thread) = None"
    using patch_None_nth[of "remap_step ext scfs i j" 0 "steps thread" k] assms that
    by (simp add: remap_thread_eq)
qed

lemma remap_flow_steps:
  assumes "j < length (threads codeFlow)" and "k < length (steps (threads codeFlow ! j))"
  shows "steps (threads (snd (remap_flow ext scfs i codeFlow)) ! j) ! k = steps (threads codeFlow ! j) ! k \<or>
         steps (threads (snd (remap_flow ext scfs i codeFlow)) ! j) ! k =
           snd (remap_step ext scfs i j k (steps (threads codeFlow ! j) ! k))"
    and "fst (remap_flow ext scfs i codeFlow) = None \<Longrightarrow>
         remap_step ext scfs i j k (steps (threads codeFlow ! j) ! k) =
           (None, steps (threads (snd (remap_flow ext scfs i codeFlow)) ! j) ! k)"
proof -
  let ?ths' = "snd (patch (remap_thread ext scfs i) 0 (threads codeFlow))"
  have ths': "threads (snd (remap_flow ext scfs i codeFlow)) = ?ths'"
    by (simp add: remap_flow_eq)
  from patch_nth_cases[OF assms(1), of "remap_thread ext scfs i" 0]
  have "?ths' ! j = threads codeFlow ! j \<or>
        ?ths' ! j = snd (remap_thread ext scfs i j (threads codeFlow ! j))" by simp
  then show "steps (threads (snd (remap_flow ext scfs i codeFlow)) ! j) ! k = steps (threads codeFlow ! j) ! k \<or>
         steps (threads (snd (remap_flow ext scfs i codeFlow)) ! j) ! k =
           snd (remap_step ext scfs i j k (steps (threads codeFlow ! j) ! k))"
    unfolding ths' using remap_thread_steps(1)[OF assms(2), of ext scfs i j] by auto
  show "remap_step ext scfs i j k (steps (threads codeFlow ! j) ! k) =
           (None, steps (threads (snd (remap_flow ext scfs i codeFlow)) ! j) ! k)"
    if "fst (remap_flow ext scfs i codeFlow) = None"
  proof -
    from that have "fst (patch (remap_thread ext scfs i) 0 (threads codeFlow)) = None"
      by (simp add: remap_flow_eq)
    from patch_None_nth[OF this assms(1)]
    have t: "remap_thread ext scfs i j (threads codeFlow ! j) = (None, ?ths' ! j)" by simp
    then have "fst (remap_thread ext scfs i j (threads codeFlow ! j)) = None" by simp
    from remap_thread_steps(2)[OF assms(2) this] t show ?thesis
      unfolding ths' by simp
  qed
qed

lemma tryRemapCodeFlows_steps_cases:
  assumes "i < length codeFlows" and "j < length (threads (codeFlows ! i))"
    and "k < length (steps (threads (codeFlows ! i) ! j))"
  shows "steps (threads (snd (tryRemapCodeFlows ext codeFlows scfs) ! i) ! j) ! k =
           steps (threads (codeFlows ! i) ! j) ! k \<or>
         steps (threads (snd (tryRemapCodeFlows ext codeFlows scfs) ! i) ! j) ! k =
           snd (remap_step ext scfs i j k (steps (threads (codeFlows ! i) ! j) ! k))"
    and "fst (tryRemapCodeFlows ext codeFlows scfs) = None \<Longrightarrow>
         remap_step ext scfs i j k (steps (threads (codeFlows ! i) ! j) ! k) =
           (None, steps (threads (snd (tryRemapCodeFlows ext codeFlows scfs) ! i) ! j) ! k)"
proof -
  let ?cfs' = "snd (patch (remap_flow ext scfs) 0 codeFlows)"
  have cfs': "snd (tryRemapCodeFlows ext codeFlows scfs) = ?cfs'"
    by (simp add: tryRemapCodeFlows_patch)
  from patch_nth_cases[OF assms(1), of "remap_flow ext scfs" 0]
  have "?cfs' ! i = codeFlows ! i \<or> ?cfs' ! i = snd (remap_flow ext scfs i (codeFlows ! i))"
    by simp
  then show "steps (threads (snd (tryRemapCodeFlows ext codeFlows scfs) ! i) ! j) ! k =
           steps (threads (codeFlows ! i) ! j) ! k \<or>
         steps (threads (snd (tryRemapCodeFlows ext codeFlows scfs) ! i) ! j) ! k =
           snd (remap_step ext scfs i j k (steps (threads (codeFlows ! i) ! j) ! k))"
    unfolding cfs' using remap_flow_steps(1)[OF assms(2,3), of ext scfs i] by auto
  show "remap_step ext scfs i j k (steps (threads (codeFlows ! i) ! j) ! k) =
           (None, steps (threads (snd (tryRemapCodeFlows ext codeFlows scfs) ! i) ! j) ! k)"
    if "fst (tryRemapCodeFlows ext codeFlows scfs) = None"
  proof -
    from that have "fst (patch (remap_flow ext scfs) 0 codeFlows) = None"
      by (simp add: tryRemapCodeFlows_patch)
    from patch_None_nth[OF this assms(1)]
    have f: "remap_flow ext scfs i (codeFlows ! i) = (None, ?cfs' ! i)" by simp
    then have "fst (remap_flow ext scfs i (codeFlows ! i)) = None" by simp
    from remap_flow_steps(2)[OF assms(2,3) this] f show ?thesis
      unfolding cfs' by simp
  qed
qed

lemma remap_step_clear:
  "clear_step (snd (remap_step ext scfs i j k step)) = clear_step step"
  by (auto simp: remap_step_def clear_step_def split: option.splits sum.splits)

lemma remap_thread_clear:
  "clear_thread (snd (remap_thread ext scfs i j thread)) = clear_thread thread"
  using patch_frame[where g = clear_step and f = "remap_step ext scfs i j",
                    OF remap_step_clear, of 0 "steps thread"]
  by (simp add: remap_thread_eq clear_thread_def)

lemma remap_flow_clear:
  "clear_flow (snd (remap_flow ext scfs i codeFlow)) = clear_flow codeFlow"
  using patch_frame[where g = clear_thread and f = "remap_thread ext scfs i",
                    OF remap_thread_clear, of 0 "threads codeFlow"]
  by (simp add: remap_flow_eq clear_flow_def)

lemma tryRemapCodeFlows_clear:
  "clear_locations (snd (tryRemapCodeFlows ext codeFlows scfs)) = clear_locations codeFlows"
  unfolding clear_locations_def tryRemapCodeFlows_patch
  by (rule patch_frame[where g = clear_flow, OF remap_flow_clear])

text \<open>
  Claim C5. Whatever \<open>tryRemapCodeFlows\<close> does, it leaves the shape of the tree and
  every field other than the locations of the steps as they were. A step whose location
  is \<open>null\<close> or marked mapped is left as it was. A step whose location is not mapped is
  overwritten with what the resolver returns for the raw location at the same indices,
  mapped or not, and nothing else of it changes; only when the pass fails may such a step
  be left as it was.
\<close>

theorem tryRemapCodeFlows_frame:
  assumes "tryRemapCodeFlows ext codeFlows scfs = (failure, codeFlows')"
  shows "clear_locations codeFlows' = clear_locations codeFlows \<and>
    (\<forall>i j k. i < length codeFlows \<and> j < length (threads (codeFlows ! i)) \<and>
             k < length (steps (threads (codeFlows ! i) ! j)) \<longrightarrow>
       (case location (steps (threads (codeFlows ! i) ! j) ! k) of
          None \<Rightarrow> steps (threads (codeFlows' ! i) ! j) ! k = steps (threads (codeFlows ! i) ! j) ! k
        | Some l \<Rightarrow>
            if mapped l
            then steps (threads (codeFlows' ! i) ! j) ! k = steps (threads (codeFlows ! i) ! j) ! k
            else (failure \<noteq> None \<and>
                  steps (threads (codeFlows' ! i) ! j) ! k = steps (threads (codeFlows ! i) ! j) ! k) \<or>
                 (\<exists>sarifLoc loc.
                    sarifLoc_at scfs i j k = Some sarifLoc \<and>
                    Location_create ext (physicalLocation sarifLoc) = Inr loc \<and>
                    steps (threads (codeFlows' ! i) ! j) ! k =
                      (steps (threads (codeFlows ! i) ! j) ! k)\<lparr>location := loc\<rparr>)))"
proof -
  from assms have fst: "fst (tryRemapCodeFlows ext codeFlows scfs) = failure"
    and snd: "snd (tryRemapCodeFlows ext codeFlows scfs) = codeFlows'" by simp_all
  have clear: "clear_locations codeFlows' = clear_locations codeFlows"
    using tryRemapCodeFlows_clear[of ext codeFlows scfs] unfolding snd .
  have point: "case location (steps (threads (codeFlows ! i) ! j) ! k) of
          None \<Rightarrow> steps (threads (codeFlows' ! i) ! j) ! k = steps (threads (codeFlows ! i) ! j) ! k
        | Some l \<Rightarrow>
            if mapped l
            then steps (threads (codeFlows' ! i) ! j) ! k = steps (threads (codeFlows ! i) ! j) ! k
            else (failure \<noteq> None \<and>
                  steps (threads (codeFlows' ! i) ! j) ! k = steps (threads (codeFlows ! i) ! j) ! k) \<or>
                 (\<exists>sarifLoc loc.
                    sarifLoc_at scfs i j k = Some sarifLoc \<and>
                    Location_create ext (physicalLocation sarifLoc) = Inr loc \<and>
                    steps (threads (codeFlows' ! i) ! j) ! k =
                      (steps (threads (codeFlows ! i) ! j) ! k)\<lparr>location := loc\<rparr>)"
    if v: "i < length codeFlows" "j < length (threads (codeFlows ! i))"
          "k < length (steps (threads (codeFlows ! i) ! j))" for i j k
  proof -
    let ?s = "steps (threads (codeFlows ! i) ! j) ! k"
    let ?s' = "steps (threads (codeFlows' ! i) ! j) ! k"
    have r1: "?s' = ?s \<or> ?s' = snd (remap_step ext scfs i j k ?s)"
      using tryRemapCodeFlows_steps_cases(1)[OF v, of ext scfs] unfolding snd .
    have r2: "remap_step ext scfs i j k ?s = (None, ?s')" if "failure = None"
      using tryRemapCodeFlows_steps_cases(2)[OF v, of ext scfs] that unfolding snd fst by simp
    note c = remap_step_cases[where step = ?s and ext = ext and scfs = scfs and i = i and j = j and k = k]
    show ?thesis
    proof (cases "location ?s")
      case None
      with c r1 show ?thesis by auto
    next
      case (Some l)
      show ?thesis
      proof (cases "mapped l")
        case True
        with Some c r1 show ?thesis by auto
      next
        case False
        show ?thesis
        proof (cases failure)
          case None
          from r2[OF None] c Some False show ?thesis by auto
        next
          case (Some err)
          with c r1 \<open>location ?s = Some l\<close> False show ?thesis by auto
        qed
      qed
    qed
  qed
  from clear point show ?thesis by blast
qed

theorem tryRemapCodeFlows_frame_witness:
  "tryRemapCodeFlows sample_externals_later (sample_tree False) sample_flows =
     (None, sample_tree True) \<and>
   clear_locations (sample_tree True) = clear_locations (sample_tree False) \<and>
   steps (threads (sample_tree True ! 0) ! 0) ! 0 = steps (threads (sample_tree False ! 0) ! 0) ! 0 \<and>
   (\<exists>sarifLoc loc.
      sarifLoc_at sample_flows 0 0 1 = Some sarifLoc \<and>
      Location_create sample_externals_later (physicalLocation sarifLoc) = Inr loc \<and>
      steps (threads (sample_tree True ! 0) ! 0) ! 1 =
        (steps (threads (sample_tree False ! 0) ! 0) ! 1)\<lparr>location := loc\<rparr>)"
proof -
  note t = tryRemapCodeFlows_frame[OF tryRemapCodeFlows_sample]
  have v: "(0::nat) < length (sample_tree False) \<and> 0 < length (threads (sample_tree False ! 0)) \<and>
           0 < length (steps (threads (sample_tree False ! 0) ! 0))"
          "(0::nat) < length (sample_tree False) \<and> 0 < length (threads (sample_tree False ! 0)) \<and>
           1 < length (steps (threads (sample_tree False ! 0) ! 0))"
    by (simp_all add: sample_tree_def)
  have l0: "location (steps (threads (sample_tree False ! 0) ! 0) ! 0) =
              Some \<lparr> mapped = True, details = ''a.c'' \<rparr>"
    and l1: "location (steps (threads (sample_tree False ! 0) ! 0) ! 1) =
              Some \<lparr> mapped = False, details = ''?'' \<rparr>"
    by (simp_all add: sample_tree_def sample_step_def)
  from t have clear: "clear_locations (sample_tree True) = clear_locations (sample_tree False)"
    by blast
  from t v(1) have "case location (steps (threads (sample_tree False ! 0) ! 0) ! 0) of
       None \<Rightarrow> steps (threads (sample_tree True ! 0) ! 0) ! 0 = steps (threads (sample_tree False ! 0) ! 0) ! 0
     | Some l \<Rightarrow>
         if mapped l
         then steps (threads (sample_tree True ! 0) ! 0) ! 0 = steps (threads (sample_tree False ! 0) ! 0) ! 0
         else (None \<noteq> (None :: error option) \<and>
               steps (threads (sample_tree True ! 0) ! 0) ! 0 = steps (threads (sample_tree False ! 0) ! 0) ! 0) \<or>
              (\<exists>sarifLoc loc.
                 sarifLoc_at sample_flows 0 0 0 = Some sarifLoc \<and>
                 Location_create sample_externals_later (physicalLocation sarifLoc) = Inr loc \<and>
                 steps (threads (sample_tree True ! 0) ! 0) ! 0 =
                   (steps (threads (sample_tree False ! 0) ! 0) ! 0)\<lparr>location := loc\<rparr>)"
    by blast
  then have s0: "steps (threads (sample_tree True ! 0) ! 0) ! 0 =
                   steps (threads (sample_tree False ! 0) ! 0) ! 0"
    unfolding l0 by simp
  from t v(2) have "case location (steps (threads (sample_tree False ! 0) ! 0) ! 1) of
       None \<Rightarrow> steps (threads (sample_tree True ! 0) ! 0) ! 1 = steps (threads (sample_tree False ! 0) ! 0) ! 1
     | Some l \<Rightarrow>
         if mapped l
         then steps (threads (sample_tree True ! 0) ! 0) ! 1 = steps (threads (sample_tree False ! 0) ! 0) ! 1
         else (None \<noteq> (None :: error option) \<and>
               steps (threads (sample_tree True ! 0) ! 0) ! 1 = steps (threads (sample_tree False ! 0) ! 0) ! 1) \<or>
              (\<exists>sarifLoc loc.
                 sarifLoc_at sample_flows 0 0 1 = Some sarifLoc \<and>
                 Location_create sample_externals_later (physicalLocation sarifLoc) = Inr loc \<and>
                 steps (threads (sample_tree True ! 0) ! 0) ! 1 =
                   (steps (threads (sample_tree False ! 0) ! 0) ! 1)\<lparr>location := loc\<rparr>)"
    by blast
  then have s1: "\<exists>sarifLoc loc.
      sarifLoc_at sample_flows 0 0 1 = Some sarifLoc \<and>
      Location_create sample_externals_later (physicalLocation sarifLoc) = Inr loc \<and>
      steps (threads (sample_tree True ! 0) ! 0) ! 1 =
        (steps (threads (sample_tree False ! 0) ! 0) ! 1)\<lparr>location := loc\<rparr>"
    unfolding l1 by simp
  from tryRemapCodeFlows_sample clear s0 s1 show ?thesis by blast
qed

text \<open>With a raw array of the shape of the tree and a resolver that does not reject, the
  pass runs to its end.\<close>

lemma tryRemapCodeFlows_completes:
  assumes "\<And>i j k l. i < length codeFlows \<Longrightarrow> j < length (threads (codeFlows ! i)) \<Longrightarrow>
             k < length (steps (threads (codeFlows ! i) ! j)) \<Longrightarrow>
             location (steps (threads (codeFlows ! i) ! j) ! k) = Some l \<Longrightarrow> \<not> mapped l \<Longrightarrow>
             \<exists>sarifLoc loc. sarifLoc_at scfs i j k = Some sarifLoc \<and>
               Location_create ext (physicalLocation sarifLoc) = Inr loc"
  shows "fst (tryRemapCodeFlows ext codeFlows scfs) = None"
  unfolding tryRemapCodeFlows_patch
proof (rule patch_total)
  fix i assume i: "i < length codeFlows"
  have "fst (patch (remap_thread ext scfs i) 0 (threads (codeFlows ! i))) = None"
  proof (rule patch_total)
    fix j assume j: "j < length (threads (codeFlows ! i))"
    have "fst (patch (remap_step ext scfs i j) 0 (steps (threads (codeFlows ! i) ! j))) = None"
    proof (rule patch_total)
      fix k assume k: "k < length (steps (threads (codeFlows ! i) ! j))"
      let ?s = "steps (threads (codeFlows ! i) ! j) ! k"
      show "fst (remap_step ext scfs i j (0 + k) ?s) = None"
      proof (cases "location ?s")
        case None
        then show ?thesis by (simp add: remap_step_def)
      next
        case (Some l)
        show ?thesis
        proof (cases "mapped l")
          case True
          with Some show ?thesis by (simp add: remap_step_def)
        next
          case False
          from assms[OF i j k Some False] Some False show ?thesis
            by (auto simp: remap_step_def sarifLoc_at_def split: option.splits sum.splits)
        qed
      qed
    qed
    then show "fst (remap_thread ext scfs i (0 + j) (threads (codeFlows ! i) ! j)) = None"
      by (simp add: remap_thread_eq)
  qed
  then show "fst (remap_flow ext scfs (0 + i) (codeFlows ! i)) = None"
    by (simp add: remap_flow_eq)
qed

text \<open>After a conversion the remapping pass, run on the raw array that produced the tree
  with a resolver that does not reject, runs to its end.\<close>

lemma tryRemapCodeFlows_after_create:
  assumes "create ext (Some scfs) = Inr (Some codeFlows)"
    and "\<And>pl. \<exists>loc. Location_create ext' pl = Inr loc"
  shows "fst (tryRemapCodeFlows ext' codeFlows scfs) = None"
proof (rule tryRemapCodeFlows_completes)
  fix i j k l
  assume v: "i < length codeFlows" "j < length (threads (codeFlows ! i))"
    "k < length (steps (threads (codeFlows ! i) ! j))"
  note t = create_tree[OF assms(1)]
  from t v have i: "i < length scfs" by simp
  with t v have j: "j < length (threadFlows (scfs ! i))" by simp
  with t i v have k: "k < length (locations (threadFlows (scfs ! i) ! j))" by simp
  from i j k have "sarifLoc_at scfs i j k =
      Some (cfl_location (locations (threadFlows (scfs ! i) ! j) ! k))"
    by (simp add: sarifLoc_at_def js_nth_def)
  with assms(2) show "\<exists>sarifLoc loc. sarifLoc_at scfs i j k = Some sarifLoc \<and>
      Location_create ext' (physicalLocation sarifLoc) = Inr loc"
    by simp
qed

end
